theory Spec2Isabelle
  imports Main
begin

section \<open>Data model\<close>

text \<open>
  A \<^verbatim>\<open>pathlib.Path\<close> is kept by its \<^verbatim>\<open>as_posix()\<close> string; byte strings are lists of
  (8-bit) characters.
\<close>

type_synonym path = string
type_synonym bytes = string

text \<open>
  Modelled from the spec: \<^verbatim>\<open>FileLog\<close> and \<^verbatim>\<open>CommandLog\<close> are declared in
  \<^verbatim>\<open>cincan/command_log.py\<close>. A file record is a path and a digest, an entry an argument
  vector, an exit code and the files read and written; the fields below are the ones that
  \<^verbatim>\<open>command_inspector.py\<close> and \<^verbatim>\<open>frontend.py\<close> read and write
  (\<^verbatim>\<open>FileLog(path, md5)\<close>, \<^verbatim>\<open>f.path\<close>, \<^verbatim>\<open>f.md5\<close>; \<^verbatim>\<open>log.command\<close>, \<^verbatim>\<open>log.exit_code\<close>,
  \<^verbatim>\<open>log.stdin\<close>, \<^verbatim>\<open>log.stdout\<close>, \<^verbatim>\<open>log.stderr\<close>, \<^verbatim>\<open>log.in_files\<close>, \<^verbatim>\<open>log.out_files\<close>).
  The two file collections are Python lists (\<^verbatim>\<open>append\<close>, \<^verbatim>\<open>extend\<close>).
\<close>

datatype FileLog = FileLog (path: path) (md5: string)

record CommandLog =
  command :: "string list"
  exit_code :: int
  stdin :: bytes
  stdout :: bytes
  stderr :: bytes
  in_files :: "FileLog list"
  out_files :: "FileLog list"

text \<open>
  The two node classes of \<^verbatim>\<open>command_inspector.py\<close>. The attribute \<^verbatim>\<open>next\<close> of the source
  is \<open>dep_next\<close> and \<open>cdep_next\<close> here.
\<close>

datatype FileDependency =
  FileDependency (dep_file: path) (dep_digest: string) (dep_out: bool)
    (dep_next: "CommandDependency list")
and CommandDependency =
  CommandDependency (cdep_command: CommandLog) (cdep_out: bool)
    (cdep_next: "FileDependency list")

text \<open>
  What the inspector reads from outside the program: for every path that is a regular
  file, the hexadecimal MD5 digest of its contents (\<^verbatim>\<open>hashlib\<close>), and the two
  \<^verbatim>\<open>pathlib\<close> operations of \<^verbatim>\<open>__work_path\<close> (\<^verbatim>\<open>relative_to\<close> raises \<^verbatim>\<open>ValueError\<close>, the
  value \<open>None\<close> here). Reading a regular file is taken to succeed.
\<close>

record os_env =
  file_md5 :: "path \<Rightarrow> string option"
  relative_to :: "path \<Rightarrow> path \<Rightarrow> path option"
  resolve :: "path \<Rightarrow> path"

record CommandInspector =
  log :: "CommandLog list"
  work_dir :: path

text \<open>
  Modelled from the spec: \<^verbatim>\<open>CommandLogIndex.list_entries\<close> is declared in
  \<^verbatim>\<open>cincan/command_log.py\<close>. The store is an insertion-ordered sequence of entries, and
  \<^verbatim>\<open>list_entries(reverse)\<close> lists it in insertion or in reverse insertion order.
\<close>

definition list_entries :: "CommandInspector \<Rightarrow> bool \<Rightarrow> CommandLog list" where
  "list_entries insp reverse = (if reverse then rev (log insp) else log insp)"

section \<open>The inspector\<close>

definition startswith :: "string \<Rightarrow> string \<Rightarrow> bool" where
  "startswith s prefix = (take (length prefix) s = prefix)"

text \<open>\<^verbatim>\<open>CommandInspector.__work_path\<close>.\<close>

definition work_path :: "os_env \<Rightarrow> CommandInspector \<Rightarrow> path \<Rightarrow> path" where
  "work_path os insp p =
     (if startswith p ''/dev/'' then p
      else case relative_to os p (work_dir insp) of
             Some r \<Rightarrow> r
           | None \<Rightarrow> resolve os p)"

text \<open>\<^verbatim>\<open>CommandInspector.hash_of\<close>: the empty string unless the path is a regular file.\<close>

definition hash_of :: "os_env \<Rightarrow> path \<Rightarrow> string" where
  "hash_of os file = (case file_md5 os file of None \<Rightarrow> [] | Some h \<Rightarrow> h)"

text \<open>
  \<^verbatim>\<open>file_digest = digest or self.hash_of(file)\<close>: Python's \<^verbatim>\<open>or\<close> takes the right operand
  when the left one is \<^verbatim>\<open>None\<close> or the empty string. \<open>hash_calls\<close> appends the path to the
  list of \<^verbatim>\<open>hash_of\<close> calls made so far exactly when the right operand is evaluated.
\<close>

definition digest_given :: "string option \<Rightarrow> bool" where
  "digest_given digest = (case digest of None \<Rightarrow> False | Some d \<Rightarrow> d \<noteq> [])"

definition digest_or_hash :: "os_env \<Rightarrow> path \<Rightarrow> string option \<Rightarrow> string" where
  "digest_or_hash os file digest =
     (if digest_given digest then the digest else hash_of os file)"

definition hash_calls :: "path \<Rightarrow> string option \<Rightarrow> path list \<Rightarrow> path list" where
  "hash_calls file digest hs = (if digest_given digest then hs else hs @ [file])"

text \<open>\<^verbatim>\<open>file_check = file.as_posix() + ':' + file_digest\<close>.\<close>

definition file_check :: "os_env \<Rightarrow> path \<Rightarrow> string option \<Rightarrow> string" where
  "file_check os file digest = file @ '':'' @ digest_or_hash os file digest"

text \<open>
  \<^verbatim>\<open>already_covered = already_covered or set([])\<close>: the contents of the set the traversal
  works on. \<open>callers_set\<close> tells whether that set is the object the caller passed: a
  \<^verbatim>\<open>None\<close> and an empty set are both falsy, and then the name is bound to a new set.
\<close>

definition covered_or_new :: "string set option \<Rightarrow> string set" where
  "covered_or_new already_covered =
     (case already_covered of None \<Rightarrow> {} | Some s \<Rightarrow> if s \<noteq> {} then s else {})"

definition callers_set :: "string set option \<Rightarrow> bool" where
  "callers_set already_covered =
     (case already_covered of None \<Rightarrow> False | Some s \<Rightarrow> s \<noteq> {})"

text \<open>
  \<^verbatim>\<open>any(filter(lambda f: f.md5 == file_digest, files))\<close>: the filtered elements are
  \<^verbatim>\<open>FileLog\<close> objects, which are truthy, so the test is that the filtered list is not
  empty.
\<close>

definition here :: "string \<Rightarrow> FileLog list \<Rightarrow> bool" where
  "here file_digest files = (filter (\<lambda>f. md5 f = file_digest) files \<noteq> [])"

text \<open>
  \<^verbatim>\<open>fanin\<close> and \<^verbatim>\<open>fanout\<close> are the same text up to the direction flag \<^verbatim>\<open>out\<close>: \<^verbatim>\<open>fanin\<close>
  (\<open>out = False\<close>) tests \<^verbatim>\<open>cmd.out_files\<close> and descends into \<^verbatim>\<open>cmd.in_files\<close>, \<^verbatim>\<open>fanout\<close>
  (\<open>out = True\<close>) tests \<^verbatim>\<open>cmd.in_files\<close> and descends into \<^verbatim>\<open>cmd.out_files\<close>.
\<close>

definition scanned_files :: "bool \<Rightarrow> CommandLog \<Rightarrow> FileLog list" where
  "scanned_files out cmd = (if out then in_files cmd else out_files cmd)"

definition followed_files :: "bool \<Rightarrow> CommandLog \<Rightarrow> FileLog list" where
  "followed_files out cmd = (if out then out_files cmd else in_files cmd)"

text \<open>
  The traversal. \<open>fan\<close> is the body of \<^verbatim>\<open>fanin\<close>/\<^verbatim>\<open>fanout\<close>, \<open>fan_cmds\<close> the loop over
  \<^verbatim>\<open>self.log.list_entries(reverse=True)\<close> and \<open>fan_files\<close> the inner loop over the files of
  a matching entry. The mutable set \<^verbatim>\<open>already_covered\<close> and the list of \<^verbatim>\<open>hash_of\<close> calls
  are passed along and returned: a result is the node (or the list of nodes), the visited
  set and the paths hashed so far. The recursive call \<^verbatim>\<open>self.fanin(file.path,
  already_covered, file.md5)\<close> is the call of \<open>fan\<close> in \<open>fan_files\<close>.
\<close>

function fan :: "bool \<Rightarrow> os_env \<Rightarrow> CommandInspector \<Rightarrow> path \<Rightarrow> string set option \<Rightarrow> string option
      \<Rightarrow> path list \<Rightarrow> FileDependency \<times> string set \<times> path list"
  and fan_cmds :: "bool \<Rightarrow> os_env \<Rightarrow> CommandInspector \<Rightarrow> CommandLog list \<Rightarrow> string \<Rightarrow> string set
      \<Rightarrow> path list \<Rightarrow> CommandDependency list \<times> string set \<times> path list"
  and fan_files :: "bool \<Rightarrow> os_env \<Rightarrow> CommandInspector \<Rightarrow> FileLog list \<Rightarrow> string set
      \<Rightarrow> path list \<Rightarrow> FileDependency list \<times> string set \<times> path list"
where
  "fan out os insp file already_covered digest hs =
     (if file_check os file digest \<in> covered_or_new already_covered
      then (FileDependency (work_path os insp file) (digest_or_hash os file digest) out [],
            covered_or_new already_covered, hash_calls file digest hs)
      else case fan_cmds out os insp (list_entries insp True) (digest_or_hash os file digest)
                  (insert (file_check os file digest) (covered_or_new already_covered))
                  (hash_calls file digest hs) of
             (cmds, covered', hs') \<Rightarrow>
               (FileDependency (work_path os insp file) (digest_or_hash os file digest) out cmds,
                covered', hs'))"
| "fan_cmds out os insp [] file_digest covered hs = ([], covered, hs)"
| "fan_cmds out os insp (cmd # cmds) file_digest covered hs =
     (if here file_digest (scanned_files out cmd)
      then case fan_files out os insp (followed_files out cmd) covered hs of
             (files, covered1, hs1) \<Rightarrow>
               (case fan_cmds out os insp cmds file_digest covered1 hs1 of
                  (rest, covered2, hs2) \<Rightarrow>
                    (CommandDependency cmd out files # rest, covered2, hs2))
      else fan_cmds out os insp cmds file_digest covered hs)"
| "fan_files out os insp [] covered hs = ([], covered, hs)"
| "fan_files out os insp (f # fs) covered hs =
     (case fan out os insp (path f) (Some covered) (Some (md5 f)) hs of
        (d, covered1, hs1) \<Rightarrow>
          (case fan_files out os insp fs covered1 hs1 of
             (ds, covered2, hs2) \<Rightarrow> (d # ds, covered2, hs2)))"
  by pat_completeness auto

subsection \<open>Termination\<close>

text \<open>
  The keys that the recursive calls of a traversal can add to the visited set are those of
  the records of the store on the side that the traversal descends into: a finite set. Each
  call of \<open>fan\<close> on an unvisited key adds it, so the number of such keys outside the visited
  set falls; the two loops leave it no larger and shorten their list. The visited set that
  a call returns contains the one it was given, which is what the calls after a recursive
  call need.
\<close>

definition record_check :: "os_env \<Rightarrow> FileLog \<Rightarrow> string" where
  "record_check os f = file_check os (path f) (Some (md5 f))"

definition reachable_checks :: "bool \<Rightarrow> os_env \<Rightarrow> CommandLog list \<Rightarrow> string set" where
  "reachable_checks out os cmds =
     (\<Union>cmd \<in> set cmds. record_check os ` set (followed_files out cmd))"

lemma covered_or_new_simps [simp]:
  "covered_or_new None = {}" "covered_or_new (Some s) = s"
  by (simp_all add: covered_or_new_def)

lemma finite_reachable_checks: "finite (reachable_checks out os cmds)"
  by (simp add: reachable_checks_def)

lemma fan_covered_mono_partial:
  "fan_fan_cmds_fan_files_dom (Inl (out, os, insp, file, ac, digest, hs)) \<Longrightarrow>
     covered_or_new ac \<subseteq> fst (snd (fan out os insp file ac digest hs))"
  "fan_fan_cmds_fan_files_dom (Inr (Inl (out, os, insp, cmds, fd, c, hs))) \<Longrightarrow>
     c \<subseteq> fst (snd (fan_cmds out os insp cmds fd c hs))"
  "fan_fan_cmds_fan_files_dom (Inr (Inr (out, os, insp, fs, c, hs))) \<Longrightarrow>
     c \<subseteq> fst (snd (fan_files out os insp fs c hs))"
proof (induction rule: fan_fan_cmds_fan_files.pinduct)
  case (1 out os insp fl already_covered digest hs)
  then show ?case
    by (auto simp add: fan.psimps Let_def split: prod.splits)
next
  case (2 out os insp file_digest covered hs)
  then show ?case by (simp add: fan_cmds.psimps)
next
  case (3 out os insp cmd cmds file_digest covered hs)
  then show ?case
    by (fastforce simp add: fan_cmds.psimps split: prod.splits)
next
  case (4 out os insp covered hs)
  then show ?case by (simp add: fan_files.psimps)
next
  case (5 out os insp f fs covered hs)
  then show ?case
    by (fastforce simp add: fan_files.psimps split: prod.splits)
qed

definition fan_measure ::
  "(bool \<times> os_env \<times> CommandInspector \<times> path \<times> string set option \<times> string option \<times> path list) +
   (bool \<times> os_env \<times> CommandInspector \<times> CommandLog list \<times> string \<times> string set \<times> path list) +
   (bool \<times> os_env \<times> CommandInspector \<times> FileLog list \<times> string set \<times> path list)
   \<Rightarrow> nat \<times> nat \<times> nat" where
  "fan_measure x =
     (case x of
        Inl (out, os, insp, file, ac, digest, hs) \<Rightarrow>
          (card (insert (file_check os file digest)
                   (reachable_checks out os (log insp)) - covered_or_new ac), 0, 0)
      | Inr (Inl (out, os, insp, cmds, fd, c, hs)) \<Rightarrow>
          (card ((reachable_checks out os (log insp) \<union> reachable_checks out os cmds) - c),
           2, length cmds)
      | Inr (Inr (out, os, insp, fs, c, hs)) \<Rightarrow>
          (card ((reachable_checks out os (log insp) \<union> record_check os ` set fs) - c),
           1, length fs))"

lemma reachable_checks_Cons:
  "reachable_checks out os (cmd # cmds) =
     record_check os ` set (followed_files out cmd) \<union> reachable_checks out os cmds"
  by (simp add: reachable_checks_def)

lemma reachable_checks_list_entries:
  "reachable_checks out os (list_entries insp True) = reachable_checks out os (log insp)"
  by (simp add: reachable_checks_def list_entries_def)

lemma card_diff_insert_less:
  assumes "finite U" and "k \<notin> c"
  shows "card (U - insert k c) < card (insert k U - c)"
proof -
  have "U - insert k c \<subset> insert k U - c"
    using assms(2) by auto
  moreover have "finite (insert k U - c)"
    using assms(1) by simp
  ultimately show ?thesis
    by (rule psubset_card_mono [rotated])
qed

lemma card_diff_mono:
  assumes "finite M" and "M' \<subseteq> M" and "c \<subseteq> c'"
  shows "card (M' - c') \<le> card (M - c)"
proof (rule card_mono)
  show "finite (M - c)" using assms(1) by simp
  show "M' - c' \<subseteq> M - c" using assms(2,3) by auto
qed

lemma fan_dom_all: "All fan_fan_cmds_fan_files_dom"
proof (relation "inv_image (less_than <*lex*> less_than <*lex*> less_than) fan_measure")
  show "wf (inv_image (less_than <*lex*> less_than <*lex*> less_than) fan_measure)"
    by (intro wf_inv_image wf_lex_prod wf_less_than)
next
  fix out and os :: os_env and insp :: CommandInspector and fl already_covered digest hs
  assume "file_check os fl digest \<notin> covered_or_new already_covered"
  then have "card (reachable_checks out os (log insp)
               - insert (file_check os fl digest) (covered_or_new already_covered))
           < card (insert (file_check os fl digest) (reachable_checks out os (log insp))
               - covered_or_new already_covered)"
    by (intro card_diff_insert_less finite_reachable_checks)
  then show "(Inr (Inl (out, os, insp, list_entries insp True, digest_or_hash os fl digest, insert (file_check os fl digest) (covered_or_new already_covered), hash_calls fl digest hs)), Inl (out, os, insp, fl, already_covered, digest, hs)) \<in> inv_image (less_than <*lex*> less_than <*lex*> less_than) fan_measure"
    by (simp add: fan_measure_def reachable_checks_list_entries)
next
  fix out and os :: os_env and insp :: CommandInspector and cmd cmds file_digest covered hs
  have "card ((reachable_checks out os (log insp) \<union> record_check os ` set (followed_files out cmd)) - covered)
      \<le> card ((reachable_checks out os (log insp) \<union> reachable_checks out os (cmd # cmds)) - covered)"
    by (rule card_diff_mono) (auto simp add: finite_reachable_checks reachable_checks_Cons)
  then show "(Inr (Inr (out, os, insp, followed_files out cmd, covered, hs)),
         Inr (Inl (out, os, insp, cmd # cmds, file_digest, covered, hs)))
        \<in> inv_image (less_than <*lex*> less_than <*lex*> less_than) fan_measure"
    by (auto simp add: fan_measure_def)
next
  fix out and os :: os_env and insp :: CommandInspector and cmd cmds file_digest covered hs x y xa ya
  assume eq: "(x, y) = fan_files out os insp (followed_files out cmd) covered hs" "(xa, ya) = y"
    and dom: "fan_fan_cmds_fan_files_dom (Inr (Inr (out, os, insp, followed_files out cmd, covered, hs)))"
  have "covered \<subseteq> xa"
    using fan_covered_mono_partial(3) [OF dom] eq [symmetric] by simp
  then have "card ((reachable_checks out os (log insp) \<union> reachable_checks out os cmds) - xa)
      \<le> card ((reachable_checks out os (log insp) \<union> reachable_checks out os (cmd # cmds)) - covered)"
    by (intro card_diff_mono) (auto simp add: finite_reachable_checks reachable_checks_Cons)
  then show "(Inr (Inl (out, os, insp, cmds, file_digest, xa, ya)),
            Inr (Inl (out, os, insp, cmd # cmds, file_digest, covered, hs)))
           \<in> inv_image (less_than <*lex*> less_than <*lex*> less_than) fan_measure"
    by (auto simp add: fan_measure_def)
next
  fix out and os :: os_env and insp :: CommandInspector and cmd cmds file_digest covered hs
  have "card ((reachable_checks out os (log insp) \<union> reachable_checks out os cmds) - covered)
      \<le> card ((reachable_checks out os (log insp) \<union> reachable_checks out os (cmd # cmds)) - covered)"
    by (intro card_diff_mono) (auto simp add: finite_reachable_checks reachable_checks_Cons)
  then show "(Inr (Inl (out, os, insp, cmds, file_digest, covered, hs)),
         Inr (Inl (out, os, insp, cmd # cmds, file_digest, covered, hs)))
        \<in> inv_image (less_than <*lex*> less_than <*lex*> less_than) fan_measure"
    by (auto simp add: fan_measure_def)
next
  fix out and os :: os_env and insp :: CommandInspector and f fs covered hs
  have "card (insert (file_check os (path f) (Some (md5 f))) (reachable_checks out os (log insp)) - covered)
      \<le> card ((reachable_checks out os (log insp) \<union> record_check os ` set (f # fs)) - covered)"
    by (intro card_diff_mono) (auto simp add: finite_reachable_checks record_check_def)
  then show "(Inl (out, os, insp, path f, Some covered, Some (md5 f), hs),
         Inr (Inr (out, os, insp, f # fs, covered, hs)))
        \<in> inv_image (less_than <*lex*> less_than <*lex*> less_than) fan_measure"
    by (auto simp add: fan_measure_def)
next
  fix out and os :: os_env and insp :: CommandInspector and f fs covered hs x y xa ya
  assume eq: "(x, y) = fan out os insp (path f) (Some covered) (Some (md5 f)) hs" "(xa, ya) = y"
    and dom: "fan_fan_cmds_fan_files_dom (Inl (out, os, insp, path f, Some covered, Some (md5 f), hs))"
  have "covered \<subseteq> xa"
    using fan_covered_mono_partial(1) [OF dom] eq [symmetric] by simp
  then have "card ((reachable_checks out os (log insp) \<union> record_check os ` set fs) - xa)
      \<le> card ((reachable_checks out os (log insp) \<union> record_check os ` set (f # fs)) - covered)"
    by (intro card_diff_mono) (auto simp add: finite_reachable_checks)
  then show "(Inr (Inr (out, os, insp, fs, xa, ya)),
            Inr (Inr (out, os, insp, f # fs, covered, hs)))
           \<in> inv_image (less_than <*lex*> less_than <*lex*> less_than) fan_measure"
    by (auto simp add: fan_measure_def)
qed

termination fan
  by (rule fan_dom_all)

declare fan.simps [simp del]

lemma fan_covered_mono:
  "covered_or_new ac \<subseteq> fst (snd (fan out os insp fl ac digest hs))"
  "c \<subseteq> fst (snd (fan_cmds out os insp cmds fd c hs))"
  "c \<subseteq> fst (snd (fan_files out os insp fs c hs))"
  using fan_dom_all by (simp_all add: fan_covered_mono_partial)

subsection \<open>The entry points\<close>

text \<open>The two entry points, with no \<^verbatim>\<open>hash_of\<close> call made yet.\<close>

definition fanin :: "os_env \<Rightarrow> CommandInspector \<Rightarrow> path \<Rightarrow> string set option \<Rightarrow> string option
    \<Rightarrow> FileDependency \<times> string set \<times> path list" where
  "fanin os insp file already_covered digest = fan False os insp file already_covered digest []"

definition fanout :: "os_env \<Rightarrow> CommandInspector \<Rightarrow> path \<Rightarrow> string set option \<Rightarrow> string option
    \<Rightarrow> FileDependency \<times> string set \<times> path list" where
  "fanout os insp file already_covered digest = fan True os insp file already_covered digest []"

section \<open>The renderer\<close>

text \<open>
  \<^verbatim>\<open>p.join(strings)\<close> and \<^verbatim>\<open>s.replace('\n', '\n    ')\<close> of Python's \<^verbatim>\<open>str\<close>; \<open>nl\<close> is the
  line feed character.
\<close>

definition nl :: char where
  "nl = CHR 0x0A"

fun join :: "string \<Rightarrow> string list \<Rightarrow> string" where
  "join sep [] = []"
| "join sep [x] = x"
| "join sep (x # y # ys) = x @ sep @ join sep (y # ys)"

fun replace_nl :: "string \<Rightarrow> string" where
  "replace_nl [] = []"
| "replace_nl (c # s) = (if c = nl then nl # ''    '' else [c]) @ replace_nl s"

text \<open>The label of a file node, the connector of each node class, and the common last line
  of both \<^verbatim>\<open>__str__\<close> methods.\<close>

definition file_string :: "path \<Rightarrow> string \<Rightarrow> string" where
  "file_string file digest = file @ (if digest \<noteq> [] then '' '' @ take 16 digest else ''/'')"

definition file_connector :: "bool \<Rightarrow> string" where
  "file_connector out = (if out then nl # ''|-- '' else nl # ''^-- '')"

definition cmd_connector :: "bool \<Rightarrow> string" where
  "cmd_connector out = (if out then nl # ''|-->'' else nl # ''^---'')"

definition with_next :: "string \<Rightarrow> string \<Rightarrow> string list \<Rightarrow> string" where
  "with_next label p next_strings =
     label @ (if next_strings \<noteq> [] then p @ join p next_strings else [])"

text \<open>
  \<^verbatim>\<open>FileDependency.__str__\<close> and \<^verbatim>\<open>CommandDependency.__str__\<close>. \<^verbatim>\<open>quote_args\<close> is imported
  from \<^verbatim>\<open>cincan/commands.py\<close> and is a parameter here.
\<close>

fun str_file :: "(string list \<Rightarrow> string list) \<Rightarrow> FileDependency \<Rightarrow> string"
  and str_cmd :: "(string list \<Rightarrow> string list) \<Rightarrow> CommandDependency \<Rightarrow> string"
where
  "str_file quote_args (FileDependency file digest out nxt) =
     with_next (file_string file digest) (file_connector out)
       (map (\<lambda>s. replace_nl (str_cmd quote_args s)) nxt)"
| "str_cmd quote_args (CommandDependency cmd out nxt) =
     with_next (join '' '' (quote_args (command cmd))) (cmd_connector out)
       (map (\<lambda>s. replace_nl (str_file quote_args s)) nxt)"

text \<open>The lines of a text, for stating what the replacement does to a rendered child.\<close>

fun split_nl :: "string \<Rightarrow> string list" where
  "split_nl [] = [[]]"
| "split_nl (c # s) =
     (if c = nl then [] # split_nl s
      else (c # hd (split_nl s)) # tl (split_nl s))"

section \<open>Recording the standard streams of a run\<close>

text \<open>
  \<^verbatim>\<open>ToolStream\<close> of \<^verbatim>\<open>frontend.py\<close>. \<open>md5_data\<close> holds the bytes given to \<^verbatim>\<open>self.md5.update\<close>
  so far (the digest object of \<^verbatim>\<open>hashlib\<close> depends on nothing else), and \<open>written\<close> the
  bytes written to \<^verbatim>\<open>self.stream\<close>.
\<close>

record ToolStream =
  data_length :: nat
  md5_data :: bytes
  raw :: bytes
  written :: bytes

definition new_ToolStream :: ToolStream where
  "new_ToolStream = \<lparr>data_length = 0, md5_data = [], raw = [], written = []\<rparr>"

definition update :: "ToolStream \<Rightarrow> bytes \<Rightarrow> ToolStream" where
  "update ts data =
     ts\<lparr>data_length := data_length ts + length data, md5_data := md5_data ts @ data\<rparr>"

text \<open>
  What one pass of the loop in \<^verbatim>\<open>__container_exec\<close> gets from outside: \<^verbatim>\<open>select\<close> either
  raises \<^verbatim>\<open>io.UnsupportedOperation\<close> or returns the ready streams, and each ready stream
  comes with what reading it gives: the bytes read from \<^verbatim>\<open>sys.stdin\<close>, or the pair
  \<^verbatim>\<open>(s_type, s_data)\<close> of \<^verbatim>\<open>__unpack_container_stream\<close>, or the exception that it raises.
\<close>

datatype selected = Stdin bytes | Socket nat bytes | SocketFailure

datatype select_result = Ready "selected list" | Unsupported

datatype exec_error = UnsupportedOperation | FailedToRead | AttributeError | Blocked

record io_state =
  stdin_s :: "ToolStream option"
  stdout_s :: "ToolStream option"
  stderr_s :: ToolStream
  stdin_active :: bool
  c_socket_open :: bool
  sent :: bytes
  shutdown_wr :: bool

text \<open>The body of \<^verbatim>\<open>if std_s:\<close> for a frame of standard output or standard error.\<close>

definition deliver :: "bool \<Rightarrow> bytes \<Rightarrow> ToolStream \<Rightarrow> ToolStream" where
  "deliver buffer_output s_data std_s =
     (if buffer_output then (update std_s s_data)\<lparr>raw := raw std_s @ s_data\<rparr>
      else (update std_s s_data)\<lparr>written := written std_s @ s_data\<rparr>)"

text \<open>
  The body of \<^verbatim>\<open>for sel in select_in\<close>. \<^verbatim>\<open>select\<close> reports only the streams of
  \<^verbatim>\<open>active_streams\<close>, so standard input that is not active is never handled.
\<close>

fun handle :: "bool \<Rightarrow> selected \<Rightarrow> io_state \<Rightarrow> exec_error + io_state" where
  "handle buffer_output (Stdin s_data) st =
     (if \<not> stdin_active st then Inr st
      else if s_data = [] then Inr (st\<lparr>stdin_active := False, shutdown_wr := True\<rparr>)
      else case stdin_s st of
             None \<Rightarrow> Inl AttributeError
           | Some s \<Rightarrow> Inr (st\<lparr>stdin_s := Some (update s s_data), sent := sent st @ s_data\<rparr>))"
| "handle buffer_output (Socket s_type s_data) st =
     (if s_data = [] then Inr (st\<lparr>c_socket_open := False\<rparr>)
      else if s_type = 1 then
        Inr (st\<lparr>stdout_s := map_option (deliver buffer_output s_data) (stdout_s st)\<rparr>)
      else if s_type = 2 then
        Inr (st\<lparr>stderr_s := deliver buffer_output s_data (stderr_s st)\<rparr>)
      else Inr st)"
| "handle buffer_output SocketFailure st = Inl FailedToRead"

fun handle_all :: "bool \<Rightarrow> selected list \<Rightarrow> io_state \<Rightarrow> exec_error + io_state" where
  "handle_all buffer_output [] st = Inr st"
| "handle_all buffer_output (sel # select_in) st =
     (case handle buffer_output sel st of
        Inl e \<Rightarrow> Inl e
      | Inr st' \<Rightarrow> handle_all buffer_output select_in st')"

text \<open>
  \<^verbatim>\<open>while c_socket_open\<close>, over the results of the successive \<^verbatim>\<open>select\<close> calls. When the
  results end with the socket still open the call does not return (\<open>Blocked\<close>).
\<close>

fun io_loop :: "bool \<Rightarrow> select_result list \<Rightarrow> io_state \<Rightarrow> exec_error + io_state" where
  "io_loop buffer_output [] st = (if c_socket_open st then Inl Blocked else Inr st)"
| "io_loop buffer_output (r # rs) st =
     (if \<not> c_socket_open st then Inr st
      else case r of
             Unsupported \<Rightarrow>
               (if stdin_active st then io_loop buffer_output rs (st\<lparr>stdin_active := False\<rparr>)
                else Inl UnsupportedOperation)
           | Ready select_in \<Rightarrow>
               (case handle_all buffer_output select_in st of
                  Inl e \<Rightarrow> Inl e
                | Inr st' \<Rightarrow> io_loop buffer_output rs st'))"

text \<open>
  Modelled from the spec: the constructor \<^verbatim>\<open>CommandLog(command)\<close> is declared in
  \<^verbatim>\<open>cincan/command_log.py\<close>. A new entry has the given argument vector, and its file
  collections are filled by the run.
\<close>

definition new_CommandLog :: "string list \<Rightarrow> CommandLog" where
  "new_CommandLog cmd =
     \<lparr>command = cmd, exit_code = 0, stdin = [], stdout = [], stderr = [],
      in_files = [], out_files = []\<rparr>"

definition initial_io :: "bool \<Rightarrow> bool \<Rightarrow> io_state" where
  "initial_io read_stdin write_stdout =
     \<lparr>stdin_s = (if read_stdin then Some new_ToolStream else None),
      stdout_s = (if write_stdout then Some new_ToolStream else None),
      stderr_s = new_ToolStream,
      stdin_active = read_stdin, c_socket_open = True, sent = [], shutdown_wr = False\<rparr>"

text \<open>
  The part of \<^verbatim>\<open>__container_exec\<close> after the loop: the exit code
  (\<^verbatim>\<open>inspect.get('ExitCode', 0)\<close>), the raw data, and the records of the three streams.
  \<open>md5_hexdigest\<close> is \<^verbatim>\<open>hashlib\<close>'s digest of the bytes given.
\<close>

definition stream_raw :: "ToolStream option \<Rightarrow> bytes" where
  "stream_raw s = (case s of None \<Rightarrow> [] | Some ts \<Rightarrow> raw ts)"

definition stream_log :: "(bytes \<Rightarrow> string) \<Rightarrow> path \<Rightarrow> ToolStream option \<Rightarrow> FileLog list" where
  "stream_log md5_hexdigest p s =
     (case s of
        None \<Rightarrow> []
      | Some ts \<Rightarrow> if data_length ts \<noteq> 0 then [FileLog p (md5_hexdigest (md5_data ts))] else [])"

definition collect :: "(bytes \<Rightarrow> string) \<Rightarrow> bool \<Rightarrow> int option \<Rightarrow> CommandLog \<Rightarrow> io_state \<Rightarrow> CommandLog" where
  "collect md5_hexdigest buffer_output ExitCode log0 st =
     (let log1 = log0\<lparr>exit_code := (case ExitCode of None \<Rightarrow> 0 | Some c \<Rightarrow> c)\<rparr>;
          log2 = (if buffer_output
                  then log1\<lparr>stdin := stream_raw (stdin_s st), stdout := stream_raw (stdout_s st),
                            stderr := raw (stderr_s st)\<rparr>
                  else log1)
      in if exit_code log2 = 0
         then log2\<lparr>in_files := in_files log2 @ stream_log md5_hexdigest ''/dev/stdin'' (stdin_s st),
                   out_files := out_files log2
                     @ stream_log md5_hexdigest ''/dev/stdout'' (stdout_s st)
                     @ stream_log md5_hexdigest ''/dev/stderr'' (Some (stderr_s st))\<rparr>
         else log2)"

text \<open>\<^verbatim>\<open>ToolImage.__container_exec\<close>, for the results \<open>rs\<close> of the \<^verbatim>\<open>select\<close> calls.\<close>

definition container_exec ::
  "(bytes \<Rightarrow> string) \<Rightarrow> bool \<Rightarrow> string \<Rightarrow> string list \<Rightarrow> string list \<Rightarrow> bool \<Rightarrow> bool
     \<Rightarrow> select_result list \<Rightarrow> int option \<Rightarrow> exec_error + CommandLog" where
  "container_exec md5_hexdigest buffer_output name image_cmd cmd_args read_stdin write_stdout
       rs ExitCode =
     (let user_cmd = (if cmd_args \<noteq> [] then cmd_args else image_cmd);
          log0 = new_CommandLog (name # user_cmd)
      in case io_loop buffer_output rs (initial_io read_stdin write_stdout) of
           Inl e \<Rightarrow> Inl e
         | Inr st \<Rightarrow> Inr (collect md5_hexdigest buffer_output ExitCode log0 st))"

section \<open>Reading the trees, and example stores\<close>

text \<open>The entries attached to a file node, in the order of its children.\<close>

definition child_commands :: "FileDependency \<Rightarrow> CommandLog list" where
  "child_commands d = map cdep_command (dep_next d)"

text \<open>
  An environment in which \<^verbatim>\<open>/w/x\<close> is an empty regular file (the digest is the MD5 of no
  bytes) and no other path is a regular file, and stores for the examples below.
\<close>

definition example_os :: os_env where
  "example_os =
     \<lparr>file_md5 = [''/w/x'' \<mapsto> ''d41d8cd98f00b204e9800998ecf8427e''],
      relative_to = (\<lambda>p w. if startswith p (w @ ''/'') then Some (drop (Suc (length w)) p) else None),
      resolve = (\<lambda>p. p)\<rparr>"

definition entry :: "string list \<Rightarrow> FileLog list \<Rightarrow> FileLog list \<Rightarrow> CommandLog" where
  "entry cmd ins outs =
     \<lparr>command = cmd, exit_code = 0, stdin = [], stdout = [], stderr = [],
      in_files = ins, out_files = outs\<rparr>"

definition copy_store :: CommandInspector where
  "copy_store =
     \<lparr>log = [entry [''gen'', ''p1''] [] [FileLog ''/w/p1'' ''D''],
             entry [''cp'', ''p1'', ''p2''] [FileLog ''/w/p1'' ''D''] [FileLog ''/w/p2'' ''D''],
             entry [''touch'', ''p2''] [] [FileLog ''/w/p2'' ''E'']],
      work_dir = ''/w''\<rparr>"

text \<open>
  A store with a cycle of digests: \<^verbatim>\<open>/w/a\<close> is made from \<^verbatim>\<open>/w/b\<close> and \<^verbatim>\<open>/w/b\<close> from
  \<^verbatim>\<open>/w/a\<close>.
\<close>

definition cycle_store :: CommandInspector where
  "cycle_store =
     \<lparr>log = [entry [''mk'', ''a''] [FileLog ''/w/b'' ''DB''] [FileLog ''/w/a'' ''DA''],
             entry [''mk'', ''b''] [FileLog ''/w/a'' ''DA''] [FileLog ''/w/b'' ''DB'']],
      work_dir = ''/w''\<rparr>"

text \<open>A store whose only entry has an output recorded with the empty digest.\<close>

definition dir_store :: CommandInspector where
  "dir_store =
     \<lparr>log = [entry [''unzip'', ''in''] [FileLog ''/w/in'' ''DA''] [FileLog ''/w/x'' '''']],
      work_dir = ''/w''\<rparr>"

text \<open>
  The file nodes of a tree in the order in which the traversal makes them, each with the
  path and the digest of the call that made it and with whether it has children. The path
  of the call is not the path kept in the node (that is its \<^verbatim>\<open>__work_path\<close>): for the nodes
  below a command node it is the path of the record at the same position in the command's
  files.
\<close>

fun file_visits :: "path \<Rightarrow> FileDependency \<Rightarrow> ((path \<times> string) \<times> bool) list"
  and cmds_visits :: "CommandDependency list \<Rightarrow> ((path \<times> string) \<times> bool) list"
  and files_visits :: "FileLog list \<Rightarrow> FileDependency list \<Rightarrow> ((path \<times> string) \<times> bool) list"
where
  "file_visits fl (FileDependency wp d out nxt) = ((fl, d), nxt \<noteq> []) # cmds_visits nxt"
| "cmds_visits [] = []"
| "cmds_visits (CommandDependency cmd out nxt # cs) =
     files_visits (followed_files out cmd) nxt @ cmds_visits cs"
| "files_visits [] ns = []"
| "files_visits (f # fs) [] = []"
| "files_visits (f # fs) (n # ns) = file_visits (path f) n @ files_visits fs ns"

definition check_of :: "path \<times> string \<Rightarrow> string" where
  "check_of pd = fst pd @ '':'' @ snd pd"

text \<open>
  Every visit of a pair whose key is in \<open>seen\<close>, or was visited earlier in the list, has no
  children.
\<close>

fun first_expansions_only :: "string set \<Rightarrow> ((path \<times> string) \<times> bool) list \<Rightarrow> bool" where
  "first_expansions_only seen [] = True"
| "first_expansions_only seen ((pd, expanded) # vs) =
     ((expanded \<longrightarrow> check_of pd \<notin> seen) \<and> first_expansions_only (insert (check_of pd) seen) vs)"

text \<open>
  The contents, after a call that worked on the set \<open>covered\<close>, of the set object that the
  caller passed: the traversal's set when that was the caller's object, and the caller's
  (empty) set, untouched, when a new set was made.
\<close>

definition callers_set_after :: "string set option \<Rightarrow> string set \<Rightarrow> string set option" where
  "callers_set_after already_covered covered =
     (case already_covered of
        None \<Rightarrow> None
      | Some s \<Rightarrow> Some (if callers_set already_covered then covered else s))"

text \<open>A store in which \<^verbatim>\<open>/w/a\<close> is an input of two entries whose outputs meet in \<^verbatim>\<open>/w/d\<close>.\<close>

definition diamond_store :: CommandInspector where
  "diamond_store =
     \<lparr>log = [entry [''mk'', ''a''] [] [FileLog ''/w/a'' ''DA''],
             entry [''mk'', ''b''] [FileLog ''/w/a'' ''DA''] [FileLog ''/w/b'' ''DB''],
             entry [''mk'', ''c''] [FileLog ''/w/a'' ''DA''] [FileLog ''/w/c'' ''DC''],
             entry [''mk'', ''d''] [FileLog ''/w/b'' ''DB'', FileLog ''/w/c'' ''DC'']
               [FileLog ''/w/d'' ''DD'']],
      work_dir = ''/w''\<rparr>"

text \<open>The keys of the visits of a list.\<close>

abbreviation visit_checks :: "((path \<times> string) \<times> bool) list \<Rightarrow> string set" where
  "visit_checks vs \<equiv> (\<lambda>v. check_of (fst v)) ` set vs"

text \<open>
  The bytes that a stream object was given, whether its counter agrees with them, and the
  digest function on the byte strings of the examples (their MD5 digests).
\<close>

definition stream_bytes :: "ToolStream option \<Rightarrow> bytes" where
  "stream_bytes s = (case s of None \<Rightarrow> [] | Some ts \<Rightarrow> md5_data ts)"

definition counted :: "ToolStream \<Rightarrow> bool" where
  "counted ts = (data_length ts = length (md5_data ts))"

definition streams_counted :: "io_state \<Rightarrow> bool" where
  "streams_counted st =
     ((case stdin_s st of None \<Rightarrow> True | Some ts \<Rightarrow> counted ts)
      \<and> (case stdout_s st of None \<Rightarrow> True | Some ts \<Rightarrow> counted ts)
      \<and> counted (stderr_s st))"

definition example_md5 :: "bytes \<Rightarrow> string" where
  "example_md5 bs =
     (if bs = ''hi'' then ''49f68a5c8493ec2c0bf489821c21fc3b''
      else if bs = ''out'' then ''c68271a63ddbc431c307beb7d2918275''
      else if bs = ''err'' then ''56bd7107802ebe56c6918992f0608ec6''
      else ''d41d8cd98f00b204e9800998ecf8427e'')"

text \<open>
  A store whose only entry has an output recorded with the empty digest at \<^verbatim>\<open>/w/out\<close>,
  which is not a regular file.
\<close>

definition mkdir_store :: CommandInspector where
  "mkdir_store =
     \<lparr>log = [entry [''mkdir'', ''out''] [FileLog ''/w/in'' ''DA''] [FileLog ''/w/out'' '''']],
      work_dir = ''/w''\<rparr>"

text \<open>
  The calls of \<^verbatim>\<open>hash_of\<close> that read the contents of a file: those on a regular file (the
  others return at \<^verbatim>\<open>is_file()\<close>).
\<close>

definition content_reads :: "os_env \<Rightarrow> path list \<Rightarrow> path list" where
  "content_reads os hs = filter (\<lambda>p. file_md5 os p \<noteq> None) hs"

text \<open>
  The records of the store that the recursive calls below a node were made for, in the order
  of the calls: for a command node, the records of its files, each followed by the records
  below its file node. \<open>unhashed\<close> gives the paths of those stored with the empty digest,
  and \<open>store_records\<close> the records of a list of entries on the side that the traversal
  descends into.
\<close>

fun file_records :: "FileDependency \<Rightarrow> FileLog list"
  and cmds_records :: "CommandDependency list \<Rightarrow> FileLog list"
  and files_records :: "FileLog list \<Rightarrow> FileDependency list \<Rightarrow> FileLog list"
where
  "file_records (FileDependency wp d out nxt) = cmds_records nxt"
| "cmds_records [] = []"
| "cmds_records (CommandDependency cmd out nxt # cs) =
     files_records (followed_files out cmd) nxt @ cmds_records cs"
| "files_records [] ns = []"
| "files_records (f # fs) [] = []"
| "files_records (f # fs) (n # ns) = f # file_records n @ files_records fs ns"

definition unhashed :: "FileLog list \<Rightarrow> path list" where
  "unhashed fs = map path (filter (\<lambda>f. md5 f = []) fs)"

definition store_records :: "bool \<Rightarrow> CommandLog list \<Rightarrow> FileLog set" where
  "store_records out cmds = (\<Union>cmd \<in> set cmds. set (followed_files out cmd))"

text \<open>
  What the results \<open>rs\<close> of the \<^verbatim>\<open>select\<close> calls say about the streams, read off the list
  alone. The loop runs up to the first pass in which the socket gives a frame with no data
  (\<open>rounds_run\<close>). \<open>stream_sent ty\<close> is the data of the frames of type \<open>ty\<close> (1 for standard
  output, 2 for standard error) in those passes. \<open>stdin_read\<close> is the data read from standard
  input up to its end of input, or up to the pass in which \<^verbatim>\<open>select\<close> refuses it.
\<close>

fun closes :: "selected list \<Rightarrow> bool" where
  "closes [] = False"
| "closes (Socket s_type s_data # sels) = (s_data = [] \<or> closes sels)"
| "closes (Stdin s_data # sels) = closes sels"
| "closes (SocketFailure # sels) = closes sels"

fun rounds_run :: "select_result list \<Rightarrow> select_result list" where
  "rounds_run [] = []"
| "rounds_run (Unsupported # rs) = Unsupported # rounds_run rs"
| "rounds_run (Ready sels # rs) = Ready sels # (if closes sels then [] else rounds_run rs)"

fun frame_bytes :: "nat \<Rightarrow> selected list \<Rightarrow> bytes" where
  "frame_bytes ty [] = []"
| "frame_bytes ty (Socket s_type s_data # sels) =
     (if s_type = ty then s_data else []) @ frame_bytes ty sels"
| "frame_bytes ty (Stdin s_data # sels) = frame_bytes ty sels"
| "frame_bytes ty (SocketFailure # sels) = frame_bytes ty sels"

fun stream_sent :: "nat \<Rightarrow> select_result list \<Rightarrow> bytes" where
  "stream_sent ty [] = []"
| "stream_sent ty (Unsupported # rs) = stream_sent ty rs"
| "stream_sent ty (Ready sels # rs) = frame_bytes ty sels @ stream_sent ty rs"

fun stdin_taken :: "selected list \<Rightarrow> bytes" where
  "stdin_taken [] = []"
| "stdin_taken (Stdin s_data # sels) = (if s_data = [] then [] else s_data @ stdin_taken sels)"
| "stdin_taken (Socket s_type s_data # sels) = stdin_taken sels"
| "stdin_taken (SocketFailure # sels) = stdin_taken sels"

fun stdin_ended :: "selected list \<Rightarrow> bool" where
  "stdin_ended [] = False"
| "stdin_ended (Stdin s_data # sels) = (s_data = [] \<or> stdin_ended sels)"
| "stdin_ended (Socket s_type s_data # sels) = stdin_ended sels"
| "stdin_ended (SocketFailure # sels) = stdin_ended sels"

fun stdin_read :: "select_result list \<Rightarrow> bytes" where
  "stdin_read [] = []"
| "stdin_read (Unsupported # rs) = []"
| "stdin_read (Ready sels # rs) =
     stdin_taken sels @ (if stdin_ended sels then [] else stdin_read rs)"

section \<open>Properties of the traversal\<close>

lemma fan_cmds_commands:
  "map cdep_command (fst (fan_cmds out os insp cmds fd c hs)) =
     filter (\<lambda>cmd. here fd (scanned_files out cmd)) cmds"
  by (induction cmds arbitrary: c hs) (simp_all add: case_prod_beta)

lemma fan_cmds_out:
  "x \<in> set (fst (fan_cmds out os insp cmds fd c hs)) \<Longrightarrow> cdep_out x = out"
  by (induction cmds arbitrary: c hs) (auto simp add: case_prod_beta split: if_splits)

lemma fan_visited:
  "file_check os fl digest \<in> covered_or_new ac \<Longrightarrow>
   fan out os insp fl ac digest hs =
     (FileDependency (work_path os insp fl) (digest_or_hash os fl digest) out [],
      covered_or_new ac, hash_calls fl digest hs)"
  by (simp add: fan.simps)

lemma fan_unvisited:
  "file_check os fl digest \<notin> covered_or_new ac \<Longrightarrow>
   fan out os insp fl ac digest hs =
     (case fan_cmds out os insp (rev (log insp)) (digest_or_hash os fl digest)
             (insert (file_check os fl digest) (covered_or_new ac)) (hash_calls fl digest hs) of
        (cmds, c, hs') \<Rightarrow>
          (FileDependency (work_path os insp fl) (digest_or_hash os fl digest) out cmds, c, hs'))"
  by (simp add: fan.simps list_entries_def)

lemma fan_check_covered:
  "file_check os fl digest \<in> fst (snd (fan out os insp fl ac digest hs))"
proof (cases "file_check os fl digest \<in> covered_or_new ac")
  case True
  then show ?thesis by (simp add: fan_visited)
next
  case False
  have "insert (file_check os fl digest) (covered_or_new ac)
     \<subseteq> fst (snd (fan_cmds out os insp (rev (log insp)) (digest_or_hash os fl digest)
             (insert (file_check os fl digest) (covered_or_new ac)) (hash_calls fl digest hs)))"
    by (rule fan_covered_mono(2))
  with False show ?thesis
    by (auto simp add: fan_unvisited split: prod.splits)
qed

lemma fan_digest:
  "dep_digest (fst (fan out os insp fl ac digest hs)) = digest_or_hash os fl digest"
  by (cases "file_check os fl digest \<in> covered_or_new ac")
     (simp_all add: fan_visited fan_unvisited case_prod_beta)

lemma here_iff: "here d fs \<longleftrightarrow> (\<exists>f \<in> set fs. md5 f = d)"
  by (auto simp add: here_def filter_empty_conv)

lemma fan_children:
  assumes "file_check os fl digest \<notin> covered_or_new ac"
  shows "child_commands (fst (fan out os insp fl ac digest hs)) =
     filter (\<lambda>cmd. \<exists>f \<in> set (scanned_files out cmd). md5 f = digest_or_hash os fl digest)
       (rev (log insp))"
  using assms
  by (simp add: fan_unvisited case_prod_beta child_commands_def fan_cmds_commands here_iff)

lemma fan_children_out:
  "c \<in> set (dep_next (fst (fan out os insp fl ac digest hs))) \<Longrightarrow> cdep_out c = out"
  by (cases "file_check os fl digest \<in> covered_or_new ac")
     (auto simp add: fan_visited fan_unvisited case_prod_beta dest: fan_cmds_out)

text \<open>
  C5. A \<^verbatim>\<open>fanin\<close> call on an anchor whose key is not yet visited scans the store in
  reverse insertion order: the entries attached to the anchor are all the entries with an
  output file of the anchor's digest, each one once, in the order of the reversed store, and
  each child is a fan-in node.
\<close>

theorem fanin_children_reverse_scan:
  assumes "file_check os fl digest \<notin> covered_or_new already_covered"
  shows "child_commands (fst (fanin os insp fl already_covered digest)) =
           filter (\<lambda>cmd. \<exists>f \<in> set (out_files cmd). md5 f = digest_or_hash os fl digest)
             (rev (log insp))
         \<and> (\<forall>c \<in> set (dep_next (fst (fanin os insp fl already_covered digest))). \<not> cdep_out c)"
  using fan_children [OF assms, of False insp "[]"] fan_children_out [of _ False os insp fl already_covered digest "[]"]
  by (auto simp add: fanin_def scanned_files_def)

theorem fanin_children_reverse_scan_witness:
  "file_check example_os ''/w/p2'' (Some ''D'') \<notin> covered_or_new None
   \<and> child_commands (fst (fanin example_os copy_store ''/w/p2'' None (Some ''D''))) =
       [entry [''cp'', ''p1'', ''p2''] [FileLog ''/w/p1'' ''D''] [FileLog ''/w/p2'' ''D''],
        entry [''gen'', ''p1''] [] [FileLog ''/w/p1'' ''D'']]"
proof -
  have h: "file_check example_os ''/w/p2'' (Some ''D'') \<notin> covered_or_new None"
    by simp
  have "filter (\<lambda>cmd. \<exists>f \<in> set (out_files cmd). md5 f = digest_or_hash example_os ''/w/p2'' (Some ''D''))
          (rev (log copy_store)) =
        [entry [''cp'', ''p1'', ''p2''] [FileLog ''/w/p1'' ''D''] [FileLog ''/w/p2'' ''D''],
         entry [''gen'', ''p1''] [] [FileLog ''/w/p1'' ''D'']]"
    by (simp add: copy_store_def entry_def digest_or_hash_def digest_given_def)
  with fanin_children_reverse_scan [OF h, of copy_store] h show ?thesis
    by simp
qed

text \<open>
  C4. Cycle-cut. The visitation key is the anchor's path, a colon and the anchor's digest.
  When the key is in the visited set, \<^verbatim>\<open>fanin\<close> and \<^verbatim>\<open>fanout\<close> return the anchor node with no
  children, leave the set unchanged, and the result does not depend on the entries of the
  store. Otherwise the result is the scan of the reversed store started from the visited set
  with the key added. In both cases the key is in the visited set on return.
\<close>

theorem fan_cycle_cut:
  "file_check os fl digest = fl @ '':'' @ digest_or_hash os fl digest
   \<and> (file_check os fl digest \<in> covered_or_new already_covered \<longrightarrow>
        fanin os insp fl already_covered digest =
          (FileDependency (work_path os insp fl) (digest_or_hash os fl digest) False [],
           covered_or_new already_covered, hash_calls fl digest [])
        \<and> fanout os insp fl already_covered digest =
          (FileDependency (work_path os insp fl) (digest_or_hash os fl digest) True [],
           covered_or_new already_covered, hash_calls fl digest [])
        \<and> fanin os (insp\<lparr>log := entries\<rparr>) fl already_covered digest =
            fanin os insp fl already_covered digest
        \<and> fanout os (insp\<lparr>log := entries\<rparr>) fl already_covered digest =
            fanout os insp fl already_covered digest)
   \<and> (file_check os fl digest \<notin> covered_or_new already_covered \<longrightarrow>
        fanin os insp fl already_covered digest =
          (case fan_cmds False os insp (rev (log insp)) (digest_or_hash os fl digest)
                  (insert (file_check os fl digest) (covered_or_new already_covered))
                  (hash_calls fl digest []) of
             (cmds, covered, hs) \<Rightarrow>
               (FileDependency (work_path os insp fl) (digest_or_hash os fl digest) False cmds,
                covered, hs))
        \<and> fanout os insp fl already_covered digest =
          (case fan_cmds True os insp (rev (log insp)) (digest_or_hash os fl digest)
                  (insert (file_check os fl digest) (covered_or_new already_covered))
                  (hash_calls fl digest []) of
             (cmds, covered, hs) \<Rightarrow>
               (FileDependency (work_path os insp fl) (digest_or_hash os fl digest) True cmds,
                covered, hs)))
   \<and> file_check os fl digest \<in> fst (snd (fanin os insp fl already_covered digest))
   \<and> file_check os fl digest \<in> fst (snd (fanout os insp fl already_covered digest))"
  by (simp add: fanin_def fanout_def fan_visited fan_unvisited fan_check_covered work_path_def)
     (simp add: file_check_def)

theorem fan_cycle_cut_witness:
  "fanin example_os copy_store ''/w/p2'' (Some {''/w/p2:D''}) (Some ''D'') =
     (FileDependency ''p2'' ''D'' False [], {''/w/p2:D''}, [])
   \<and> fanout example_os copy_store ''/w/p1'' (Some {''/w/p1:D''}) (Some ''D'') =
     (FileDependency ''p1'' ''D'' True [], {''/w/p1:D''}, [])
   \<and> dep_next (fst (fanin example_os copy_store ''/w/p2'' (Some {''/w/p1:D''}) (Some ''D''))) \<noteq> []
   \<and> ''/w/p2:D'' \<in> fst (snd (fanin example_os copy_store ''/w/p2'' (Some {''/w/p1:D''}) (Some ''D'')))"
proof -
  have k: "file_check example_os ''/w/p2'' (Some ''D'') = ''/w/p2:D''"
          "file_check example_os ''/w/p1'' (Some ''D'') = ''/w/p1:D''"
    by (simp_all add: file_check_def digest_or_hash_def digest_given_def)
  have w: "work_path example_os copy_store ''/w/p2'' = ''p2''"
          "work_path example_os copy_store ''/w/p1'' = ''p1''"
    by (simp_all add: work_path_def example_os_def copy_store_def startswith_def)
  have d: "digest_or_hash example_os ''/w/p2'' (Some ''D'') = ''D''"
          "digest_or_hash example_os ''/w/p1'' (Some ''D'') = ''D''"
          "hash_calls ''/w/p2'' (Some ''D'') [] = []" "hash_calls ''/w/p1'' (Some ''D'') [] = []"
    by (simp_all add: digest_or_hash_def digest_given_def hash_calls_def)
  have c: "dep_next (fst (fanin example_os copy_store ''/w/p2'' (Some {''/w/p1:D''}) (Some ''D''))) \<noteq> []"
    by (simp add: fanin_def fan.simps k d list_entries_def copy_store_def entry_def here_def
        scanned_files_def followed_files_def case_prod_beta)
  have a: "fanin example_os copy_store ''/w/p2'' (Some {''/w/p2:D''}) (Some ''D'') =
      (FileDependency ''p2'' ''D'' False [], {''/w/p2:D''}, [])"
    using fan_cycle_cut [of example_os "''/w/p2''" "Some ''D''" "Some {''/w/p2:D''}" copy_store]
    by (simp add: k w d)
  have b: "fanout example_os copy_store ''/w/p1'' (Some {''/w/p1:D''}) (Some ''D'') =
      (FileDependency ''p1'' ''D'' True [], {''/w/p1:D''}, [])"
    using fan_cycle_cut [of example_os "''/w/p1''" "Some ''D''" "Some {''/w/p1:D''}" copy_store]
    by (simp add: k w d)
  have m: "''/w/p2:D'' \<in> fst (snd (fanin example_os copy_store ''/w/p2'' (Some {''/w/p1:D''}) (Some ''D'')))"
    using fan_cycle_cut [of example_os "''/w/p2''" "Some ''D''" "Some {''/w/p1:D''}" copy_store,
        THEN conjunct2, THEN conjunct2, THEN conjunct2, THEN conjunct1]
    by (simp add: k)
  show ?thesis
    using a b c m by (intro conjI)
qed



lemma fan_covered_bound:
  "fst (snd (fan out os insp fl ac digest hs))
     \<subseteq> covered_or_new ac \<union> insert (file_check os fl digest) (reachable_checks out os (log insp))"
  "fst (snd (fan_cmds out os insp cmds fd c hs))
     \<subseteq> c \<union> reachable_checks out os (log insp) \<union> reachable_checks out os cmds"
  "fst (snd (fan_files out os insp fs c hs))
     \<subseteq> c \<union> reachable_checks out os (log insp) \<union> record_check os ` set fs"
proof (induction out os insp fl ac digest hs and out os insp cmds fd c hs and out os insp fs c hs
    rule: fan_fan_cmds_fan_files.induct)
  case (1 out os insp fl already_covered digest hs)
  then show ?case
    by (auto simp add: fan.simps [of out os insp fl] reachable_checks_list_entries split: prod.splits)
next
  case (2 out os insp file_digest covered hs)
  then show ?case by auto
next
  case (3 out os insp cmd cmds file_digest covered hs)
  show ?case
  proof (cases "here file_digest (scanned_files out cmd)")
    case True
    obtain files c1 h1 where f: "fan_files out os insp (followed_files out cmd) covered hs = (files, c1, h1)"
      by (cases "fan_files out os insp (followed_files out cmd) covered hs") auto
    have a: "c1 \<subseteq> covered \<union> reachable_checks out os (log insp) \<union> record_check os ` set (followed_files out cmd)"
      using 3(1) [OF True] f by simp
    have b: "fst (snd (fan_cmds out os insp cmds file_digest c1 h1))
        \<subseteq> c1 \<union> reachable_checks out os (log insp) \<union> reachable_checks out os cmds"
      using 3(2) [OF True f [symmetric] refl] .
    show ?thesis
      using True a b f by (auto simp add: reachable_checks_Cons split: prod.splits)
  next
    case False
    then show ?thesis
      using 3(3) by (auto simp add: reachable_checks_Cons)
  qed
next
  case (4 out os insp covered hs)
  then show ?case by auto
next
  case (5 out os insp f fs covered hs)
  obtain d c1 h1 where f: "fan out os insp (path f) (Some covered) (Some (md5 f)) hs = (d, c1, h1)"
    by (cases "fan out os insp (path f) (Some covered) (Some (md5 f)) hs") auto
  have a: "c1 \<subseteq> covered \<union> insert (record_check os f) (reachable_checks out os (log insp))"
    using 5(1) f by (simp add: record_check_def)
  have b: "fst (snd (fan_files out os insp fs c1 h1))
      \<subseteq> c1 \<union> reachable_checks out os (log insp) \<union> record_check os ` set fs"
    using 5(2) [OF f [symmetric] refl] .
  show ?case
    using a b f by (auto split: prod.splits)
qed

text \<open>
  C2. \<^verbatim>\<open>fanin\<close> and \<^verbatim>\<open>fanout\<close> terminate for every store and every anchor: every call is in
  the domain on which the recursion is well-founded. The keys that a traversal can add to
  the visited set are the anchor's and those of the files of the store's entries, a finite
  set, and a key is added only when it is not yet in the visited set.
\<close>

theorem fan_terminates:
  "fan_fan_cmds_fan_files_dom (Inl (False, os, insp, fl, already_covered, digest, []))
   \<and> fan_fan_cmds_fan_files_dom (Inl (True, os, insp, fl, already_covered, digest, []))
   \<and> finite (reachable_checks False os (log insp))
   \<and> finite (reachable_checks True os (log insp))
   \<and> fst (snd (fanin os insp fl already_covered digest))
       \<subseteq> covered_or_new already_covered
         \<union> insert (file_check os fl digest) (reachable_checks False os (log insp))
   \<and> fst (snd (fanout os insp fl already_covered digest))
       \<subseteq> covered_or_new already_covered
         \<union> insert (file_check os fl digest) (reachable_checks True os (log insp))"
  using fan_dom_all fan_covered_bound(1) [of False os insp fl already_covered digest "[]"]
    fan_covered_bound(1) [of True os insp fl already_covered digest "[]"]
  by (simp add: fanin_def fanout_def finite_reachable_checks)

lemma cycle_store_fanin:
  "fanin example_os cycle_store ''/w/a'' None (Some ''DA'') =
     (FileDependency ''a'' ''DA'' False
        [CommandDependency (entry [''mk'', ''a''] [FileLog ''/w/b'' ''DB''] [FileLog ''/w/a'' ''DA'']) False
           [FileDependency ''b'' ''DB'' False
              [CommandDependency (entry [''mk'', ''b''] [FileLog ''/w/a'' ''DA''] [FileLog ''/w/b'' ''DB'']) False
                 [FileDependency ''a'' ''DA'' False []]]]],
      {''/w/a:DA'', ''/w/b:DB''}, [])"
  by (simp add: fanin_def fan.simps file_check_def digest_or_hash_def digest_given_def
      hash_calls_def list_entries_def cycle_store_def entry_def here_def scanned_files_def
      followed_files_def work_path_def example_os_def startswith_def insert_commute)

theorem fan_terminates_witness:
  "fan_fan_cmds_fan_files_dom (Inl (False, example_os, cycle_store, ''/w/a'', None, Some ''DA'', []))
   \<and> fst (snd (fanin example_os cycle_store ''/w/a'' None (Some ''DA'')))
        \<subseteq> {''/w/a:DA'', ''/w/b:DB''}"
  using fan_terminates [of example_os cycle_store "''/w/a''" None "Some ''DA''"]
  by (simp add: cycle_store_fanin)

lemma fan_files_digests:
  "map dep_digest (fst (fan_files out os insp fs c hs)) =
     map (\<lambda>f. digest_or_hash os (path f) (Some (md5 f))) fs"
  by (induction fs arbitrary: c hs) (simp_all add: case_prod_beta fan_digest)

lemma fan_cmds_nodes:
  "x \<in> set (fst (fan_cmds out os insp cmds fd c hs)) \<Longrightarrow>
     map dep_digest (cdep_next x) =
       map (\<lambda>f. digest_or_hash os (path f) (Some (md5 f))) (followed_files out (cdep_command x))"
  by (induction cmds arbitrary: c hs)
     (auto simp add: case_prod_beta fan_files_digests split: if_splits)

lemma fan_child_nodes:
  assumes "x \<in> set (dep_next (fst (fan out os insp fl ac digest hs)))"
  shows "map dep_digest (cdep_next x) =
       map (\<lambda>f. digest_or_hash os (path f) (Some (md5 f))) (followed_files out (cdep_command x))"
proof (cases "file_check os fl digest \<in> covered_or_new ac")
  case True
  with assms show ?thesis by (simp add: fan_visited)
next
  case False
  with assms show ?thesis
    by (auto simp add: fan_unvisited case_prod_beta dest: fan_cmds_nodes)
qed

lemma record_digest_kept:
  "md5 f \<noteq> [] \<or> hash_of os (path f) = [] \<Longrightarrow>
     digest_or_hash os (path f) (Some (md5 f)) = md5 f"
  by (auto simp add: digest_or_hash_def digest_given_def)

lemma fan_command_beneath_kept:
  assumes "C \<in> set (log insp)"
    and "fa \<in> set (scanned_files out C)" and "fb \<in> set (followed_files out C)"
    and "md5 fb \<noteq> [] \<or> hash_of os (path fb) = []"
    and "digest_or_hash os fl digest = md5 fa"
  shows "\<exists>c \<in> set (dep_next (fst (fan out os insp fl None digest hs))).
           cdep_command c = C \<and> cdep_out c = out
           \<and> (\<exists>n \<in> set (cdep_next c). dep_digest n = md5 fb)"
proof -
  have "file_check os fl digest \<notin> covered_or_new None"
    by simp
  then have "child_commands (fst (fan out os insp fl None digest hs)) =
      filter (\<lambda>cmd. \<exists>f \<in> set (scanned_files out cmd). md5 f = digest_or_hash os fl digest)
        (rev (log insp))"
    by (rule fan_children)
  with assms(1,2,5) have "C \<in> set (child_commands (fst (fan out os insp fl None digest hs)))"
    by auto
  then obtain c where c: "c \<in> set (dep_next (fst (fan out os insp fl None digest hs)))"
      "cdep_command c = C"
    by (auto simp add: child_commands_def)
  have "md5 fb \<in> set (map (\<lambda>f. digest_or_hash os (path f) (Some (md5 f))) (followed_files out C))"
    using assms(3) record_digest_kept [OF assms(4)] by force
  then have "md5 fb \<in> set (map dep_digest (cdep_next c))"
    using fan_child_nodes [OF c(1)] c(2) by simp
  then have "\<exists>n \<in> set (cdep_next c). dep_digest n = md5 fb"
    by auto
  with c fan_children_out [OF c(1)] show ?thesis
    by blast
qed

text \<open>
  C3. Direction symmetry. Stated for every pair of digests, the claim fails when the digest
  below the entry is the empty string: the inner call takes an empty digest for a missing
  one and hashes the file, so the node carries the digest of the file on disk. In the store
  of the counterexample the entry has an input of digest \<open>DA\<close> and an output recorded with
  the empty digest at \<^verbatim>\<open>/w/x\<close>, a regular file; the only file node below the entry has the
  digest of that file.
\<close>

theorem direction_symmetry_counterexample:
  "log dir_store = [entry [''unzip'', ''in''] [FileLog ''/w/in'' ''DA''] [FileLog ''/w/x'' '''']]
   \<and> fst (fanout example_os dir_store ''/w/in'' None (Some ''DA'')) =
       FileDependency ''in'' ''DA'' True
         [CommandDependency (entry [''unzip'', ''in''] [FileLog ''/w/in'' ''DA''] [FileLog ''/w/x'' '''']) True
            [FileDependency ''x'' ''d41d8cd98f00b204e9800998ecf8427e'' True []]]
   \<and> '''' \<notin> set (map dep_digest
             (concat (map cdep_next (dep_next (fst (fanout example_os dir_store ''/w/in'' None (Some ''DA'')))))))"
  by (simp add: fanout_def fan.simps file_check_def digest_or_hash_def digest_given_def
      hash_calls_def hash_of_def list_entries_def dir_store_def entry_def here_def scanned_files_def
      followed_files_def work_path_def example_os_def startswith_def)

text \<open>
  C3, as amended. For an entry \<open>C\<close> of the store with an input record \<open>fa\<close> and an output
  record \<open>fb\<close>: a new \<^verbatim>\<open>fanout\<close> whose anchor has the digest of \<open>fa\<close> has \<open>C\<close> as a fan-out
  child with a file node of the digest of \<open>fb\<close> below it, unless \<open>fb\<close> is stored with the
  empty digest and hashing its path gives another digest; and a new \<^verbatim>\<open>fanin\<close> whose anchor
  has the digest of \<open>fb\<close> has \<open>C\<close> as a fan-in child with a file node of the digest of \<open>fa\<close>
  below it, unless \<open>fa\<close> is stored with the empty digest and hashing its path gives another
  digest. Hashing a path that is not a regular file gives the empty digest.
\<close>

theorem direction_symmetry:
  assumes "C \<in> set (log insp)"
    and "fa \<in> set (in_files C)" and "fb \<in> set (out_files C)"
  shows "((md5 fb \<noteq> [] \<or> hash_of os (path fb) = []) \<and> digest_or_hash os fl digest = md5 fa \<longrightarrow>
           (\<exists>c \<in> set (dep_next (fst (fanout os insp fl None digest))).
              cdep_command c = C \<and> cdep_out c
              \<and> (\<exists>n \<in> set (cdep_next c). dep_digest n = md5 fb)))
       \<and> ((md5 fa \<noteq> [] \<or> hash_of os (path fa) = []) \<and> digest_or_hash os fl' digest' = md5 fb \<longrightarrow>
           (\<exists>c \<in> set (dep_next (fst (fanin os insp fl' None digest'))).
              cdep_command c = C \<and> \<not> cdep_out c
              \<and> (\<exists>n \<in> set (cdep_next c). dep_digest n = md5 fa)))
       \<and> (file_md5 os (path fb) = None \<longrightarrow> hash_of os (path fb) = [])
       \<and> (file_md5 os (path fa) = None \<longrightarrow> hash_of os (path fa) = [])"
  using fan_command_beneath_kept [of C insp fa True fb os fl digest "[]"]
    fan_command_beneath_kept [of C insp fb False fa os fl' digest' "[]"] assms
  by (simp add: fanin_def fanout_def scanned_files_def followed_files_def hash_of_def)

theorem direction_symmetry_witness:
  "(\<exists>c \<in> set (dep_next (fst (fanout example_os copy_store ''/w/p1'' None (Some ''D'')))).
      cdep_command c = entry [''cp'', ''p1'', ''p2''] [FileLog ''/w/p1'' ''D''] [FileLog ''/w/p2'' ''D'']
      \<and> cdep_out c \<and> (\<exists>n \<in> set (cdep_next c). dep_digest n = ''D''))
   \<and> (\<exists>c \<in> set (dep_next (fst (fanin example_os copy_store ''/w/p2'' None (Some ''D'')))).
      cdep_command c = entry [''cp'', ''p1'', ''p2''] [FileLog ''/w/p1'' ''D''] [FileLog ''/w/p2'' ''D'']
      \<and> \<not> cdep_out c \<and> (\<exists>n \<in> set (cdep_next c). dep_digest n = ''D''))
   \<and> (\<exists>c \<in> set (dep_next (fst (fanout example_os mkdir_store ''/w/in'' None (Some ''DA'')))).
      cdep_command c = entry [''mkdir'', ''out''] [FileLog ''/w/in'' ''DA''] [FileLog ''/w/out'' '''']
      \<and> cdep_out c \<and> (\<exists>n \<in> set (cdep_next c). dep_digest n = ''''))"
proof -
  let ?C = "entry [''cp'', ''p1'', ''p2''] [FileLog ''/w/p1'' ''D''] [FileLog ''/w/p2'' ''D'']"
  let ?M = "entry [''mkdir'', ''out''] [FileLog ''/w/in'' ''DA''] [FileLog ''/w/out'' '''']"
  have 1: "?C \<in> set (log copy_store)"
    by (simp add: copy_store_def)
  have 2: "FileLog ''/w/p1'' ''D'' \<in> set (in_files ?C)" "FileLog ''/w/p2'' ''D'' \<in> set (out_files ?C)"
    by (simp_all add: entry_def)
  have 3: "digest_or_hash example_os ''/w/p1'' (Some ''D'') = ''D''"
      "digest_or_hash example_os ''/w/p2'' (Some ''D'') = ''D''"
      "digest_or_hash example_os ''/w/in'' (Some ''DA'') = ''DA''"
    by (simp_all add: digest_or_hash_def digest_given_def)
  have 4: "?M \<in> set (log mkdir_store)"
    by (simp add: mkdir_store_def)
  have 5: "FileLog ''/w/in'' ''DA'' \<in> set (in_files ?M)" "FileLog ''/w/out'' '''' \<in> set (out_files ?M)"
    by (simp_all add: entry_def)
  have 6: "hash_of example_os ''/w/out'' = []"
    by (simp add: hash_of_def example_os_def)
  have a: "(\<exists>c \<in> set (dep_next (fst (fanout example_os copy_store ''/w/p1'' None (Some ''D'')))).
      cdep_command c = ?C \<and> cdep_out c \<and> (\<exists>n \<in> set (cdep_next c). dep_digest n = ''D''))
   \<and> (\<exists>c \<in> set (dep_next (fst (fanin example_os copy_store ''/w/p2'' None (Some ''D'')))).
      cdep_command c = ?C \<and> \<not> cdep_out c \<and> (\<exists>n \<in> set (cdep_next c). dep_digest n = ''D''))"
    using direction_symmetry [OF 1 2, of example_os "''/w/p1''" "Some ''D''" "''/w/p2''" "Some ''D''"]
    by (simp add: 3)
  have b: "\<exists>c \<in> set (dep_next (fst (fanout example_os mkdir_store ''/w/in'' None (Some ''DA'')))).
      cdep_command c = ?M \<and> cdep_out c \<and> (\<exists>n \<in> set (cdep_next c). dep_digest n = '''')"
    using direction_symmetry [OF 4 5, of example_os "''/w/in''" "Some ''DA''", THEN conjunct1]
    by (simp add: 3 6)
  from a b show ?thesis
    by blast
qed

lemma unhashed_simps [simp]:
  "unhashed [] = []"
  "unhashed (f # fs) = (if md5 f = [] then path f # unhashed fs else unhashed fs)"
  "unhashed (fs @ gs) = unhashed fs @ unhashed gs"
  by (simp_all add: unhashed_def)

lemma hash_calls_append:
  "hash_calls p (Some d) hs = hs @ (if d = [] then [p] else [])"
  by (simp add: hash_calls_def digest_given_def)

lemma fan_hash_log:
  "snd (snd (fan out os insp fl ac digest hs)) =
     hash_calls fl digest hs @ unhashed (file_records (fst (fan out os insp fl ac digest hs)))"
  "snd (snd (fan_cmds out os insp cmds fd c hs)) =
     hs @ unhashed (cmds_records (fst (fan_cmds out os insp cmds fd c hs)))"
  "snd (snd (fan_files out os insp fs c hs)) =
     hs @ unhashed (files_records fs (fst (fan_files out os insp fs c hs)))"
proof (induction out os insp fl ac digest hs and out os insp cmds fd c hs and out os insp fs c hs
    rule: fan_fan_cmds_fan_files.induct)
  case (1 out os insp fl already_covered digest hs)
  show ?case
  proof (cases "file_check os fl digest \<in> covered_or_new already_covered")
    case True
    then show ?thesis by (simp add: fan_visited)
  next
    case False
    from 1 [OF False] False show ?thesis
      by (simp add: fan_unvisited list_entries_def case_prod_beta)
  qed
next
  case (2 out os insp file_digest covered hs)
  then show ?case by simp
next
  case (3 out os insp cmd cmds file_digest covered hs)
  show ?case
  proof (cases "here file_digest (scanned_files out cmd)")
    case True
    obtain files c1 h1 where f: "fan_files out os insp (followed_files out cmd) covered hs = (files, c1, h1)"
      by (cases "fan_files out os insp (followed_files out cmd) covered hs") auto
    obtain rest c2 h2 where g: "fan_cmds out os insp cmds file_digest c1 h1 = (rest, c2, h2)"
      by (cases "fan_cmds out os insp cmds file_digest c1 h1") auto
    have a: "h1 = hs @ unhashed (files_records (followed_files out cmd) files)"
      using 3(1) [OF True] f by simp
    have b: "h2 = h1 @ unhashed (cmds_records rest)"
      using 3(2) [OF True f [symmetric] refl] g by simp
    have r: "fan_cmds out os insp (cmd # cmds) file_digest covered hs =
        (CommandDependency cmd out files # rest, c2, h2)"
      using True f g by simp
    show ?thesis
      unfolding r using a b by simp
  next
    case False
    then show ?thesis
      using 3(3) by simp
  qed
next
  case (4 out os insp covered hs)
  then show ?case by simp
next
  case (5 out os insp f fs covered hs)
  obtain d c1 h1 where f: "fan out os insp (path f) (Some covered) (Some (md5 f)) hs = (d, c1, h1)"
    by (cases "fan out os insp (path f) (Some covered) (Some (md5 f)) hs") auto
  obtain ds c2 h2 where g: "fan_files out os insp fs c1 h1 = (ds, c2, h2)"
    by (cases "fan_files out os insp fs c1 h1") auto
  have a: "h1 = hash_calls (path f) (Some (md5 f)) hs @ unhashed (file_records d)"
    using 5(1) f by simp
  have b: "h2 = h1 @ unhashed (files_records fs ds)"
    using 5(2) [OF f [symmetric] refl] g by simp
  have r: "fan_files out os insp (f # fs) covered hs = (d # ds, c2, h2)"
    using f g by simp
  show ?case
    unfolding r using a b by (simp add: hash_calls_append)
qed

lemma store_records_Cons:
  "store_records out (cmd # cmds) = set (followed_files out cmd) \<union> store_records out cmds"
  by (simp add: store_records_def)

lemma fan_records_in_store:
  "set (file_records (fst (fan out os insp fl ac digest hs))) \<subseteq> store_records out (log insp)"
  "set (cmds_records (fst (fan_cmds out os insp cmds fd c hs)))
     \<subseteq> store_records out (log insp) \<union> store_records out cmds"
  "set (files_records fs (fst (fan_files out os insp fs c hs)))
     \<subseteq> store_records out (log insp) \<union> set fs"
proof (induction out os insp fl ac digest hs and out os insp cmds fd c hs and out os insp fs c hs
    rule: fan_fan_cmds_fan_files.induct)
  case (1 out os insp fl already_covered digest hs)
  show ?case
  proof (cases "file_check os fl digest \<in> covered_or_new already_covered")
    case True
    then show ?thesis by (simp add: fan_visited)
  next
    case False
    have "store_records out (list_entries insp True) = store_records out (log insp)"
      by (simp add: store_records_def list_entries_def)
    with 1 [OF False] False show ?thesis
      by (simp add: fan_unvisited list_entries_def case_prod_beta)
  qed
next
  case (2 out os insp file_digest covered hs)
  then show ?case by simp
next
  case (3 out os insp cmd cmds file_digest covered hs)
  show ?case
  proof (cases "here file_digest (scanned_files out cmd)")
    case True
    obtain files c1 h1 where f: "fan_files out os insp (followed_files out cmd) covered hs = (files, c1, h1)"
      by (cases "fan_files out os insp (followed_files out cmd) covered hs") auto
    obtain rest c2 h2 where g: "fan_cmds out os insp cmds file_digest c1 h1 = (rest, c2, h2)"
      by (cases "fan_cmds out os insp cmds file_digest c1 h1") auto
    have a: "set (files_records (followed_files out cmd) files)
        \<subseteq> store_records out (log insp) \<union> set (followed_files out cmd)"
      using 3(1) [OF True] f by simp
    have b: "set (cmds_records rest) \<subseteq> store_records out (log insp) \<union> store_records out cmds"
      using 3(2) [OF True f [symmetric] refl] g by simp
    have r: "fan_cmds out os insp (cmd # cmds) file_digest covered hs =
        (CommandDependency cmd out files # rest, c2, h2)"
      using True f g by simp
    show ?thesis
      unfolding r using a b by (auto simp add: store_records_Cons)
  next
    case False
    then show ?thesis
      using 3(3) by (auto simp add: store_records_Cons)
  qed
next
  case (4 out os insp covered hs)
  then show ?case by simp
next
  case (5 out os insp f fs covered hs)
  obtain d c1 h1 where f: "fan out os insp (path f) (Some covered) (Some (md5 f)) hs = (d, c1, h1)"
    by (cases "fan out os insp (path f) (Some covered) (Some (md5 f)) hs") auto
  obtain ds c2 h2 where g: "fan_files out os insp fs c1 h1 = (ds, c2, h2)"
    by (cases "fan_files out os insp fs c1 h1") auto
  have a: "set (file_records d) \<subseteq> store_records out (log insp)"
    using 5(1) f by simp
  have b: "set (files_records fs ds) \<subseteq> store_records out (log insp) \<union> set fs"
    using 5(2) [OF f [symmetric] refl] g by simp
  have r: "fan_files out os insp (f # fs) covered hs = (d # ds, c2, h2)"
    using f g by simp
  show ?case
    unfolding r using a b by auto
qed

lemma content_reads_append [simp]:
  "content_reads os (hs @ hs') = content_reads os hs @ content_reads os hs'"
  by (simp add: content_reads_def)

lemma content_reads_unhashed:
  "content_reads os (unhashed fs) =
     map path (filter (\<lambda>f. md5 f = [] \<and> file_md5 os (path f) \<noteq> None) fs)"
  by (induction fs) (simp_all add: content_reads_def)

lemma content_reads_anchor:
  "content_reads os (hash_calls fl digest []) =
     (if \<not> digest_given digest \<and> file_md5 os fl \<noteq> None then [fl] else [])"
  by (simp add: content_reads_def hash_calls_def)

text \<open>
  C7. Hash-once. Stated for every store, the claim fails for a record stored with the empty
  digest whose path is a regular file: the recursive call receives the empty string, which
  \<^verbatim>\<open>digest or self.hash_of(file)\<close> takes for a missing digest, and the file is hashed in the
  middle of the traversal. In the counterexample the anchor is given its digest, and the
  contents of \<^verbatim>\<open>/w/x\<close>, the path of the record taken from the store, are still read.
\<close>

theorem hash_contents_counterexample:
  "log dir_store = [entry [''unzip'', ''in''] [FileLog ''/w/in'' ''DA''] [FileLog ''/w/x'' '''']]
   \<and> file_md5 example_os ''/w/x'' = Some ''d41d8cd98f00b204e9800998ecf8427e''
   \<and> snd (snd (fanout example_os dir_store ''/w/in'' None (Some ''DA''))) = [''/w/x'']
   \<and> content_reads example_os (snd (snd (fanout example_os dir_store ''/w/in'' None (Some ''DA''))))
       = [''/w/x'']"
  by (simp add: fanout_def fan.simps file_check_def digest_or_hash_def digest_given_def
      hash_calls_def hash_of_def list_entries_def dir_store_def entry_def here_def scanned_files_def
      followed_files_def work_path_def example_os_def startswith_def content_reads_def)

text \<open>
  C7, as amended. Every recursive step passes the record's stored digest, and a stored
  digest that is not empty is the digest of the node. The files whose contents a traversal
  reads are, in order, the anchor, when no digest or the empty digest is given and it is a
  regular file, and then the records that the traversal reaches (all of them records of the
  store) that are stored with the empty digest at the path of a regular file. So when no
  record reached is of that kind, contents are read at most once, for the anchor.
\<close>

theorem hash_contents_once:
  "content_reads os (snd (snd (fanin os insp fl already_covered digest))) =
     (if \<not> digest_given digest \<and> file_md5 os fl \<noteq> None then [fl] else [])
     @ map path (filter (\<lambda>f. md5 f = [] \<and> file_md5 os (path f) \<noteq> None)
         (file_records (fst (fanin os insp fl already_covered digest))))
   \<and> content_reads os (snd (snd (fanout os insp fl already_covered digest))) =
     (if \<not> digest_given digest \<and> file_md5 os fl \<noteq> None then [fl] else [])
     @ map path (filter (\<lambda>f. md5 f = [] \<and> file_md5 os (path f) \<noteq> None)
         (file_records (fst (fanout os insp fl already_covered digest))))
   \<and> ((\<forall>f \<in> set (file_records (fst (fanin os insp fl already_covered digest))).
          md5 f = [] \<longrightarrow> file_md5 os (path f) = None) \<longrightarrow>
        content_reads os (snd (snd (fanin os insp fl already_covered digest))) =
          (if \<not> digest_given digest \<and> file_md5 os fl \<noteq> None then [fl] else []))
   \<and> ((\<forall>f \<in> set (file_records (fst (fanout os insp fl already_covered digest))).
          md5 f = [] \<longrightarrow> file_md5 os (path f) = None) \<longrightarrow>
        content_reads os (snd (snd (fanout os insp fl already_covered digest))) =
          (if \<not> digest_given digest \<and> file_md5 os fl \<noteq> None then [fl] else []))
   \<and> set (file_records (fst (fanin os insp fl already_covered digest)))
       \<subseteq> store_records False (log insp)
   \<and> set (file_records (fst (fanout os insp fl already_covered digest)))
       \<subseteq> store_records True (log insp)
   \<and> (x \<in> set (dep_next (fst (fanin os insp fl already_covered digest))) \<longrightarrow>
        map dep_digest (cdep_next x) =
          map (\<lambda>f. if md5 f \<noteq> [] then md5 f else hash_of os (path f)) (in_files (cdep_command x)))
   \<and> (y \<in> set (dep_next (fst (fanout os insp fl already_covered digest))) \<longrightarrow>
        map dep_digest (cdep_next y) =
          map (\<lambda>f. if md5 f \<noteq> [] then md5 f else hash_of os (path f)) (out_files (cdep_command y)))"
proof -
  have reads: "content_reads os (snd (snd (fan out os insp fl already_covered digest []))) =
     (if \<not> digest_given digest \<and> file_md5 os fl \<noteq> None then [fl] else [])
     @ map path (filter (\<lambda>f. md5 f = [] \<and> file_md5 os (path f) \<noteq> None)
         (file_records (fst (fan out os insp fl already_covered digest []))))" for out
    by (subst fan_hash_log(1)) (simp add: content_reads_anchor content_reads_unhashed)
  have none: "map path (filter (\<lambda>f. md5 f = [] \<and> file_md5 os (path f) \<noteq> None) fs) = []"
    if "\<forall>f \<in> set fs. md5 f = [] \<longrightarrow> file_md5 os (path f) = None" for fs
    using that by (auto simp add: filter_empty_conv)
  have d: "(\<lambda>f. digest_or_hash os (path f) (Some (md5 f))) =
      (\<lambda>f. if md5 f \<noteq> [] then md5 f else hash_of os (path f))"
    by (simp add: digest_or_hash_def digest_given_def fun_eq_iff)
  have nodes: "z \<in> set (dep_next (fst (fan out os insp fl already_covered digest []))) \<longrightarrow>
        map dep_digest (cdep_next z) =
          map (\<lambda>f. if md5 f \<noteq> [] then md5 f else hash_of os (path f))
            (followed_files out (cdep_command z))" for out z
    using fan_child_nodes [of z out os insp fl already_covered digest "[]"] unfolding d by blast
  show ?thesis
    unfolding fanin_def fanout_def
    using reads [of False] reads [of True] nodes [of x False] nodes [of y True]
      fan_records_in_store(1) [of False os insp fl already_covered digest "[]"]
      fan_records_in_store(1) [of True os insp fl already_covered digest "[]"]
    by (simp add: none followed_files_def)
qed

theorem hash_contents_once_witness:
  "snd (snd (fanout example_os mkdir_store ''/w/in'' None (Some ''DA''))) = [''/w/out'']
   \<and> content_reads example_os (snd (snd (fanout example_os mkdir_store ''/w/in'' None (Some ''DA'')))) = []
   \<and> content_reads example_os (snd (snd (fanout example_os mkdir_store ''/w/x'' None None))) = [''/w/x'']"
proof -
  have t: "fanout example_os mkdir_store ''/w/in'' None (Some ''DA'') =
     (FileDependency ''in'' ''DA'' True
        [CommandDependency (entry [''mkdir'', ''out''] [FileLog ''/w/in'' ''DA''] [FileLog ''/w/out'' '''']) True
           [FileDependency ''out'' '''' True []]],
      {''/w/out:'', ''/w/in:DA''}, [''/w/out''])"
    by (simp add: fanout_def fan.simps file_check_def digest_or_hash_def digest_given_def
      hash_calls_def hash_of_def list_entries_def mkdir_store_def entry_def here_def scanned_files_def
      followed_files_def work_path_def example_os_def startswith_def)
  have u: "fst (fanout example_os mkdir_store ''/w/x'' None None) =
     FileDependency ''x'' ''d41d8cd98f00b204e9800998ecf8427e'' True []"
    by (simp add: fanout_def fan.simps file_check_def digest_or_hash_def digest_given_def
      hash_calls_def hash_of_def list_entries_def mkdir_store_def entry_def here_def scanned_files_def
      followed_files_def work_path_def example_os_def startswith_def)
  have f: "file_md5 example_os ''/w/out'' = None" "file_md5 example_os ''/w/x'' \<noteq> None"
      "file_md5 example_os ''/w/in'' = None"
    by (simp_all add: example_os_def)
  have a: "content_reads example_os (snd (snd (fanout example_os mkdir_store ''/w/in'' None (Some ''DA'')))) = []"
    using hash_contents_once [of example_os mkdir_store "''/w/in''" None "Some ''DA''",
        THEN conjunct2, THEN conjunct1]
    by (simp add: t f digest_given_def followed_files_def entry_def)
  have b: "content_reads example_os (snd (snd (fanout example_os mkdir_store ''/w/x'' None None))) = [''/w/x'']"
    using hash_contents_once [of example_os mkdir_store "''/w/x''" None None,
        THEN conjunct2, THEN conjunct1]
    by (simp add: u f digest_given_def)
  from t a b show ?thesis
    by simp
qed

text \<open>
  C6. Hashing a path that is not a regular file gives the empty digest, but an anchor with
  the empty digest is not always a leaf: the test \<^verbatim>\<open>f.md5 == file_digest\<close> also holds for a
  record stored with the empty digest. In the counterexample \<^verbatim>\<open>/w/missing\<close> is not a file
  and the store has an entry with an output recorded with the empty digest; the \<^verbatim>\<open>fanin\<close>
  tree of \<^verbatim>\<open>/w/missing\<close> has that entry as a child.
\<close>

theorem empty_digest_leaf_counterexample:
  "file_md5 example_os ''/w/missing'' = None
   \<and> hash_of example_os ''/w/missing'' = ''''
   \<and> log dir_store = [entry [''unzip'', ''in''] [FileLog ''/w/in'' ''DA''] [FileLog ''/w/x'' '''']]
   \<and> fst (fanin example_os dir_store ''/w/missing'' None None) =
       FileDependency ''missing'' '''' False
         [CommandDependency (entry [''unzip'', ''in''] [FileLog ''/w/in'' ''DA''] [FileLog ''/w/x'' '''']) False
            [FileDependency ''in'' ''DA'' False []]]"
  by (simp add: fanin_def fan.simps file_check_def digest_or_hash_def digest_given_def
      hash_calls_def hash_of_def list_entries_def dir_store_def entry_def here_def scanned_files_def
      followed_files_def work_path_def example_os_def startswith_def)

text \<open>
  C6, as amended. Hashing a path that is not a regular file gives the empty digest and no
  error. A new \<^verbatim>\<open>fanin\<close> (\<^verbatim>\<open>fanout\<close>) of such a path with no digest given has, as children, the
  entries with an output (input) record of empty digest; it is a childless leaf exactly when
  no entry of the store has such a record.
\<close>

theorem empty_digest_leaf:
  assumes "file_md5 os fl = None" and "\<not> digest_given digest"
  shows "hash_of os fl = []
     \<and> dep_digest (fst (fanin os insp fl None digest)) = []
     \<and> dep_digest (fst (fanout os insp fl None digest)) = []
     \<and> child_commands (fst (fanin os insp fl None digest)) =
         filter (\<lambda>cmd. \<exists>f \<in> set (out_files cmd). md5 f = []) (rev (log insp))
     \<and> child_commands (fst (fanout os insp fl None digest)) =
         filter (\<lambda>cmd. \<exists>f \<in> set (in_files cmd). md5 f = []) (rev (log insp))
     \<and> (dep_next (fst (fanin os insp fl None digest)) = [] \<longleftrightarrow>
          (\<forall>cmd \<in> set (log insp). \<forall>f \<in> set (out_files cmd). md5 f \<noteq> []))
     \<and> (dep_next (fst (fanout os insp fl None digest)) = [] \<longleftrightarrow>
          (\<forall>cmd \<in> set (log insp). \<forall>f \<in> set (in_files cmd). md5 f \<noteq> []))"
proof -
  have h: "hash_of os fl = []"
    using assms(1) by (simp add: hash_of_def)
  with assms(2) have d: "digest_or_hash os fl digest = []"
    by (simp add: digest_or_hash_def)
  have unvisited: "file_check os fl digest \<notin> covered_or_new None"
    by simp
  have i: "child_commands (fst (fanin os insp fl None digest)) =
      filter (\<lambda>cmd. \<exists>f \<in> set (out_files cmd). md5 f = []) (rev (log insp))"
    using fan_children [OF unvisited, of False insp "[]"]
    by (simp add: fanin_def scanned_files_def d)
  have o: "child_commands (fst (fanout os insp fl None digest)) =
      filter (\<lambda>cmd. \<exists>f \<in> set (in_files cmd). md5 f = []) (rev (log insp))"
    using fan_children [OF unvisited, of True insp "[]"]
    by (simp add: fanout_def scanned_files_def d)
  have n: "dep_next t = [] \<longleftrightarrow> child_commands t = []" for t
    by (simp add: child_commands_def)
  show ?thesis
    unfolding n i o using h d
    by (auto simp add: fanin_def fanout_def fan_digest filter_empty_conv)
qed

theorem empty_digest_leaf_witness:
  "file_md5 example_os ''/w/missing'' = None \<and> \<not> digest_given None
   \<and> hash_of example_os ''/w/missing'' = []
   \<and> dep_digest (fst (fanin example_os copy_store ''/w/missing'' None None)) = []
   \<and> dep_next (fst (fanin example_os copy_store ''/w/missing'' None None)) = []
   \<and> dep_next (fst (fanin example_os dir_store ''/w/missing'' None None)) \<noteq> []"
proof -
  have a: "file_md5 example_os ''/w/missing'' = None" "\<not> digest_given None"
    by (simp_all add: example_os_def digest_given_def)
  show ?thesis
    using a empty_digest_leaf [OF a, of copy_store] empty_digest_leaf [OF a, of dir_store]
    by (simp add: copy_store_def dir_store_def entry_def)
qed

lemma first_expansions_only_append:
  "first_expansions_only seen (xs @ ys) \<longleftrightarrow>
     first_expansions_only seen xs \<and> first_expansions_only (seen \<union> visit_checks xs) ys"
  by (induction xs arbitrary: seen) (auto simp add: insert_commute Un_commute)

lemma fan_node:
  "\<exists>nxt. fst (fan out os insp fl ac digest hs) =
     FileDependency (work_path os insp fl) (digest_or_hash os fl digest) out nxt
     \<and> (file_check os fl digest \<in> covered_or_new ac \<longrightarrow> nxt = [])"
  by (cases "file_check os fl digest \<in> covered_or_new ac")
     (simp_all add: fan_visited fan_unvisited case_prod_beta)

lemma fan_visits:
  "first_expansions_only (covered_or_new ac) (file_visits fl (fst (fan out os insp fl ac digest hs)))
   \<and> fst (snd (fan out os insp fl ac digest hs)) =
       covered_or_new ac \<union> visit_checks (file_visits fl (fst (fan out os insp fl ac digest hs)))"
  "first_expansions_only c (cmds_visits (fst (fan_cmds out os insp cmds fd c hs)))
   \<and> fst (snd (fan_cmds out os insp cmds fd c hs)) =
       c \<union> visit_checks (cmds_visits (fst (fan_cmds out os insp cmds fd c hs)))"
  "first_expansions_only c (files_visits fs (fst (fan_files out os insp fs c hs)))
   \<and> fst (snd (fan_files out os insp fs c hs)) =
       c \<union> visit_checks (files_visits fs (fst (fan_files out os insp fs c hs)))"
proof (induction out os insp fl ac digest hs and out os insp cmds fd c hs and out os insp fs c hs
    rule: fan_fan_cmds_fan_files.induct)
  case (1 out os insp fl already_covered digest hs)
  show ?case
  proof (cases "file_check os fl digest \<in> covered_or_new already_covered")
    case True
    then show ?thesis
      by (auto simp add: fan_visited check_of_def file_check_def)
  next
    case False
    from 1 [OF False] False show ?thesis
      by (auto simp add: fan_unvisited list_entries_def case_prod_beta check_of_def file_check_def)
  qed
next
  case (2 out os insp file_digest covered hs)
  then show ?case by simp
next
  case (3 out os insp cmd cmds file_digest covered hs)
  show ?case
  proof (cases "here file_digest (scanned_files out cmd)")
    case True
    obtain files c1 h1 where f: "fan_files out os insp (followed_files out cmd) covered hs = (files, c1, h1)"
      by (cases "fan_files out os insp (followed_files out cmd) covered hs") auto
    obtain rest c2 h2 where g: "fan_cmds out os insp cmds file_digest c1 h1 = (rest, c2, h2)"
      by (cases "fan_cmds out os insp cmds file_digest c1 h1") auto
    have a: "first_expansions_only covered (files_visits (followed_files out cmd) files)"
        "c1 = covered \<union> visit_checks (files_visits (followed_files out cmd) files)"
      using 3(1) [OF True] f by simp_all
    have b: "first_expansions_only c1 (cmds_visits rest)" "c2 = c1 \<union> visit_checks (cmds_visits rest)"
      using 3(2) [OF True f [symmetric] refl] g by simp_all
    have r: "fan_cmds out os insp (cmd # cmds) file_digest covered hs =
        (CommandDependency cmd out files # rest, c2, h2)"
      using True f g by simp
    show ?thesis
      unfolding r using a b by (auto simp add: first_expansions_only_append)
  next
    case False
    then show ?thesis
      using 3(3) by simp
  qed
next
  case (4 out os insp covered hs)
  then show ?case by simp
next
  case (5 out os insp f fs covered hs)
  obtain d c1 h1 where f: "fan out os insp (path f) (Some covered) (Some (md5 f)) hs = (d, c1, h1)"
    by (cases "fan out os insp (path f) (Some covered) (Some (md5 f)) hs") auto
  obtain ds c2 h2 where g: "fan_files out os insp fs c1 h1 = (ds, c2, h2)"
    by (cases "fan_files out os insp fs c1 h1") auto
  have a: "first_expansions_only covered (file_visits (path f) d)"
      "c1 = covered \<union> visit_checks (file_visits (path f) d)"
    using 5(1) f by simp_all
  have b: "first_expansions_only c1 (files_visits fs ds)" "c2 = c1 \<union> visit_checks (files_visits fs ds)"
    using 5(2) [OF f [symmetric] refl] g by simp_all
  have r: "fan_files out os insp (f # fs) covered hs = (d # ds, c2, h2)"
    using f g by simp
  show ?case
    unfolding r using a b by (auto simp add: first_expansions_only_append)
qed

lemma first_expansions_unseen:
  "first_expansions_only seen vs \<Longrightarrow> v \<in> set vs \<Longrightarrow> snd v \<Longrightarrow> check_of (fst v) \<notin> seen"
proof (induction vs arbitrary: seen)
  case Nil
  then show ?case by simp
next
  case (Cons a vs)
  obtain pd e where a: "a = (pd, e)" by (cases a)
  from Cons.prems(1) have rest: "first_expansions_only (insert (check_of pd) seen) vs"
    and first: "e \<longrightarrow> check_of pd \<notin> seen"
    by (simp_all add: a)
  show ?case
  proof (cases "v = a")
    case True
    with first Cons.prems(3) show ?thesis by (simp add: a)
  next
    case False
    with Cons.prems(2) have "v \<in> set vs" by simp
    from Cons.IH [OF rest this Cons.prems(3)] show ?thesis by simp
  qed
qed

lemma first_expansions_distinct:
  "first_expansions_only seen vs \<Longrightarrow> distinct (map (\<lambda>v. check_of (fst v)) (filter snd vs))"
proof (induction vs arbitrary: seen)
  case Nil
  then show ?case by simp
next
  case (Cons v vs)
  obtain pd e where v: "v = (pd, e)" by (cases v)
  from Cons.prems have rest: "first_expansions_only (insert (check_of pd) seen) vs"
    by (simp add: v)
  have "check_of (fst w) \<noteq> check_of pd" if "w \<in> set vs" "snd w" for w
    using first_expansions_unseen [OF rest that] by simp
  then have "check_of pd \<notin> (\<lambda>v. check_of (fst v)) ` set (filter snd vs)"
    by force
  with Cons.IH [OF rest] show ?case
    by (simp add: v)
qed

lemma first_expansions_distinct_pairs:
  assumes "first_expansions_only seen vs"
  shows "distinct (map fst (filter snd vs))"
proof -
  have "distinct (map check_of (map fst (filter snd vs)))"
    using first_expansions_distinct [OF assms] by (simp add: comp_def)
  then show ?thesis
    by (metis distinct_map)
qed

lemma fan_next_visited:
  "file_check os fl digest \<in> covered_or_new ac \<Longrightarrow>
     dep_next (fst (fan out os insp fl ac digest hs)) = []"
  by (simp add: fan_visited)

lemma callers_set_after_covered:
  "callers_set ac \<Longrightarrow> covered_or_new (callers_set_after ac c) = c"
  by (cases ac) (simp_all add: callers_set_def callers_set_after_def)

text \<open>
  C8. The visited set is shared by the recursive calls of a traversal, but not always with
  the caller: \<^verbatim>\<open>already_covered or set([])\<close> makes a new set when the caller passes an empty
  one, and the caller's set stays empty. In the counterexample the caller passes an empty
  set to \<^verbatim>\<open>fanin\<close>; after the call the anchor's key is in the traversal's set, the caller's
  set is still empty, and a second call with it on the same anchor has both entries as
  children again.
\<close>

theorem shared_set_counterexample:
  "callers_set_after (Some {}) (fst (snd (fanin example_os copy_store ''/w/p2'' (Some {}) (Some ''D''))))
     = Some {}
   \<and> file_check example_os ''/w/p2'' (Some ''D'')
       \<in> fst (snd (fanin example_os copy_store ''/w/p2'' (Some {}) (Some ''D'')))
   \<and> child_commands (fst (fanin example_os copy_store ''/w/p2''
         (callers_set_after (Some {}) (fst (snd (fanin example_os copy_store ''/w/p2'' (Some {}) (Some ''D'')))))
         (Some ''D''))) =
       [entry [''cp'', ''p1'', ''p2''] [FileLog ''/w/p1'' ''D''] [FileLog ''/w/p2'' ''D''],
        entry [''gen'', ''p1''] [] [FileLog ''/w/p1'' ''D'']]"
proof -
  have a: "callers_set_after (Some {}) c = Some {}" for c
    by (simp add: callers_set_after_def callers_set_def)
  have b: "child_commands (fst (fanin example_os copy_store ''/w/p2'' (Some {}) (Some ''D''))) =
       [entry [''cp'', ''p1'', ''p2''] [FileLog ''/w/p1'' ''D''] [FileLog ''/w/p2'' ''D''],
        entry [''gen'', ''p1''] [] [FileLog ''/w/p1'' ''D'']]"
    using fan_children [of example_os "''/w/p2''" "Some ''D''" "Some {}" False copy_store "[]"]
    by (simp add: fanin_def scanned_files_def copy_store_def entry_def digest_or_hash_def digest_given_def)
  show ?thesis
    unfolding a using b by (simp add: fanin_def fan_check_covered)
qed

text \<open>
  C8, as amended. In the list of the file nodes of the tree that \<^verbatim>\<open>fanin\<close> or \<^verbatim>\<open>fanout\<close>
  returns, in the order of the calls, every node whose key is in the visited set the call
  started from, or is the key of an earlier node of the tree (in any subtree), has no
  children; so the pairs of path and digest of the nodes that have children are distinct.
  The visited set on return is the starting set and the keys of all file nodes of the tree.
  A caller that passes a set that is not empty gets a childless anchor from a second call,
  with the same set, on any pair whose key the first call left in it.
\<close>

theorem visited_set_shared:
  "first_expansions_only (covered_or_new already_covered)
     (file_visits fl (fst (fanin os insp fl already_covered digest)))
   \<and> first_expansions_only (covered_or_new already_covered)
     (file_visits fl (fst (fanout os insp fl already_covered digest)))
   \<and> distinct (map fst (filter snd (file_visits fl (fst (fanin os insp fl already_covered digest)))))
   \<and> distinct (map fst (filter snd (file_visits fl (fst (fanout os insp fl already_covered digest)))))
   \<and> fst (snd (fanin os insp fl already_covered digest)) =
       covered_or_new already_covered
       \<union> visit_checks (file_visits fl (fst (fanin os insp fl already_covered digest)))
   \<and> fst (snd (fanout os insp fl already_covered digest)) =
       covered_or_new already_covered
       \<union> visit_checks (file_visits fl (fst (fanout os insp fl already_covered digest)))
   \<and> (callers_set already_covered
        \<and> file_check os fl' digest' \<in> fst (snd (fanin os insp fl already_covered digest)) \<longrightarrow>
        dep_next (fst (fanin os insp fl'
          (callers_set_after already_covered (fst (snd (fanin os insp fl already_covered digest))))
          digest')) = [])
   \<and> (callers_set already_covered
        \<and> file_check os fl' digest' \<in> fst (snd (fanout os insp fl already_covered digest)) \<longrightarrow>
        dep_next (fst (fanout os insp fl'
          (callers_set_after already_covered (fst (snd (fanout os insp fl already_covered digest))))
          digest')) = [])"
  using fan_visits(1) [of already_covered fl False os insp digest "[]"]
    fan_visits(1) [of already_covered fl True os insp digest "[]"]
  by (auto simp add: fanin_def fanout_def fan_next_visited callers_set_after_covered
      dest: first_expansions_distinct_pairs)

theorem visited_set_shared_witness:
  "file_visits ''/w/d'' (fst (fanin example_os diamond_store ''/w/d'' None (Some ''DD''))) =
     [((''/w/d'', ''DD''), True), ((''/w/b'', ''DB''), True), ((''/w/a'', ''DA''), True),
      ((''/w/c'', ''DC''), True), ((''/w/a'', ''DA''), False)]
   \<and> first_expansions_only {}
       (file_visits ''/w/d'' (fst (fanin example_os diamond_store ''/w/d'' None (Some ''DD''))))
   \<and> callers_set (Some {''seen''})
   \<and> dep_next (fst (fanin example_os diamond_store ''/w/a''
         (callers_set_after (Some {''seen''})
            (fst (snd (fanin example_os diamond_store ''/w/d'' (Some {''seen''}) (Some ''DD'')))))
         (Some ''DA''))) = []"
proof -
  have t: "fanin example_os diamond_store ''/w/d'' (Some {''seen''}) (Some ''DD'') =
    (FileDependency ''d'' ''DD'' False
       [CommandDependency (entry [''mk'', ''d''] [FileLog ''/w/b'' ''DB'', FileLog ''/w/c'' ''DC'']
            [FileLog ''/w/d'' ''DD'']) False
          [FileDependency ''b'' ''DB'' False
             [CommandDependency (entry [''mk'', ''b''] [FileLog ''/w/a'' ''DA''] [FileLog ''/w/b'' ''DB'']) False
                [FileDependency ''a'' ''DA'' False
                   [CommandDependency (entry [''mk'', ''a''] [] [FileLog ''/w/a'' ''DA'']) False []]]],
           FileDependency ''c'' ''DC'' False
             [CommandDependency (entry [''mk'', ''c''] [FileLog ''/w/a'' ''DA''] [FileLog ''/w/c'' ''DC'']) False
                [FileDependency ''a'' ''DA'' False []]]]],
     {''/w/c:DC'', ''/w/a:DA'', ''/w/b:DB'', ''/w/d:DD'', ''seen''}, [])"
    by (simp add: fanin_def fan.simps file_check_def digest_or_hash_def digest_given_def
      hash_calls_def list_entries_def diamond_store_def entry_def here_def scanned_files_def
      followed_files_def work_path_def example_os_def startswith_def insert_commute)
  have v: "file_visits ''/w/d'' (fst (fanin example_os diamond_store ''/w/d'' None (Some ''DD''))) =
     [((''/w/d'', ''DD''), True), ((''/w/b'', ''DB''), True), ((''/w/a'', ''DA''), True),
      ((''/w/c'', ''DC''), True), ((''/w/a'', ''DA''), False)]"
    by (simp add: fanin_def fan.simps file_check_def digest_or_hash_def digest_given_def
      hash_calls_def list_entries_def diamond_store_def entry_def here_def scanned_files_def
      followed_files_def work_path_def example_os_def startswith_def)
  have c: "callers_set (Some {''seen''})"
    by (simp add: callers_set_def)
  have k: "file_check example_os ''/w/a'' (Some ''DA'') = ''/w/a:DA''"
    by (simp add: file_check_def digest_or_hash_def digest_given_def)
  have 1: "first_expansions_only {}
       (file_visits ''/w/d'' (fst (fanin example_os diamond_store ''/w/d'' None (Some ''DD''))))"
    using visited_set_shared [of None "''/w/d''" example_os diamond_store "Some ''DD''",
        THEN conjunct1]
    by simp
  have m: "file_check example_os ''/w/a'' (Some ''DA'')
      \<in> fst (snd (fanin example_os diamond_store ''/w/d'' (Some {''seen''}) (Some ''DD'')))"
    by (simp add: k t)
  have 2: "dep_next (fst (fanin example_os diamond_store ''/w/a''
         (callers_set_after (Some {''seen''})
            (fst (snd (fanin example_os diamond_store ''/w/d'' (Some {''seen''}) (Some ''DD'')))))
         (Some ''DA''))) = []"
    using visited_set_shared [of "Some {''seen''}" "''/w/d''" example_os diamond_store "Some ''DD''"
        "''/w/a''" "Some ''DA''", THEN conjunct2, THEN conjunct2, THEN conjunct2, THEN conjunct2,
        THEN conjunct2, THEN conjunct2, THEN conjunct1] c m
    by blast
  show ?thesis
    using v 1 c 2 by (intro conjI)
qed

section \<open>Properties of the recorded streams\<close>

lemma counted_update: "counted ts \<Longrightarrow> counted (update ts s_data)"
  by (simp add: counted_def update_def)

lemma counted_deliver: "counted ts \<Longrightarrow> counted (deliver buffer_output s_data ts)"
  by (simp add: counted_def update_def deliver_def)

lemma handle_invariant:
  assumes "handle buffer_output sel st = Inr st'" and "streams_counted st"
  shows "streams_counted st' \<and> (stdin_s st' = None \<longleftrightarrow> stdin_s st = None)
     \<and> (stdout_s st' = None \<longleftrightarrow> stdout_s st = None)"
  using assms
  by (cases sel)
     (auto simp add: streams_counted_def counted_update counted_deliver
       split: if_splits option.splits)

lemma handle_all_invariant:
  assumes "handle_all buffer_output select_in st = Inr st'" and "streams_counted st"
  shows "streams_counted st' \<and> (stdin_s st' = None \<longleftrightarrow> stdin_s st = None)
     \<and> (stdout_s st' = None \<longleftrightarrow> stdout_s st = None)"
  using assms
proof (induction select_in arbitrary: st)
  case Nil
  then show ?case by simp
next
  case (Cons sel select_in)
  from Cons.prems(1) obtain st1 where h: "handle buffer_output sel st = Inr st1"
    and r: "handle_all buffer_output select_in st1 = Inr st'"
    by (auto split: sum.splits)
  from handle_invariant [OF h Cons.prems(2)] Cons.IH [OF r] show ?case
    by simp
qed

lemma io_loop_invariant:
  assumes "io_loop buffer_output rs st = Inr st'" and "streams_counted st"
  shows "streams_counted st' \<and> (stdin_s st' = None \<longleftrightarrow> stdin_s st = None)
     \<and> (stdout_s st' = None \<longleftrightarrow> stdout_s st = None)"
  using assms
proof (induction rs arbitrary: st)
  case Nil
  then show ?case by (simp split: if_splits)
next
  case (Cons r rs)
  show ?case
  proof (cases "c_socket_open st")
    case False
    with Cons.prems show ?thesis by simp
  next
    case True
    show ?thesis
    proof (cases r)
      case (Ready select_in)
      from Cons.prems(1) True Ready obtain st1
        where h: "handle_all buffer_output select_in st = Inr st1"
          and l: "io_loop buffer_output rs st1 = Inr st'"
        by (auto split: sum.splits)
      from handle_all_invariant [OF h Cons.prems(2)] Cons.IH [OF l] show ?thesis
        by simp
    next
      case Unsupported
      from Cons.prems(1) True Unsupported
      have l: "io_loop buffer_output rs (st\<lparr>stdin_active := False\<rparr>) = Inr st'"
        by (auto split: if_splits)
      have "streams_counted (st\<lparr>stdin_active := False\<rparr>)"
        using Cons.prems(2) by (simp add: streams_counted_def)
      from Cons.IH [OF l this] show ?thesis
        by simp
    qed
  qed
qed

lemma initial_io_counted:
  "streams_counted (initial_io read_stdin write_stdout)"
  by (simp add: streams_counted_def initial_io_def counted_def new_ToolStream_def)

lemma stream_log_member:
  "FileLog p d \<in> set (stream_log md5_hexdigest q s) \<longleftrightarrow>
     p = q \<and> (\<exists>ts. s = Some ts \<and> data_length ts \<noteq> 0 \<and> d = md5_hexdigest (md5_data ts))"
  by (auto simp add: stream_log_def split: option.splits)

lemma stream_records_of_state:
  assumes "io_loop buffer_output rs (initial_io read_stdin write_stdout) = Inr st"
    and "result = collect md5_hexdigest buffer_output ExitCode
           (new_CommandLog (name # (if cmd_args \<noteq> [] then cmd_args else image_cmd))) st"
  shows "container_exec md5_hexdigest buffer_output name image_cmd cmd_args read_stdin write_stdout
           rs ExitCode = Inr result
     \<and> (exit_code result = 0 \<longrightarrow>
          (FileLog ''/dev/stdin'' d \<in> set (in_files result) \<longleftrightarrow>
             read_stdin \<and> stream_bytes (stdin_s st) \<noteq> []
             \<and> d = md5_hexdigest (stream_bytes (stdin_s st)))
        \<and> (FileLog ''/dev/stdout'' d \<in> set (out_files result) \<longleftrightarrow>
             write_stdout \<and> stream_bytes (stdout_s st) \<noteq> []
             \<and> d = md5_hexdigest (stream_bytes (stdout_s st)))
        \<and> (FileLog ''/dev/stderr'' d \<in> set (out_files result) \<longleftrightarrow>
             md5_data (stderr_s st) \<noteq> [] \<and> d = md5_hexdigest (md5_data (stderr_s st))))
     \<and> (exit_code result \<noteq> 0 \<longrightarrow> in_files result = [] \<and> out_files result = [])"
proof -
  from io_loop_invariant [OF assms(1) initial_io_counted]
  have c: "streams_counted st"
    and i: "stdin_s st = None \<longleftrightarrow> \<not> read_stdin"
    and o: "stdout_s st = None \<longleftrightarrow> \<not> write_stdout"
    by (simp_all add: initial_io_def)
  have e: "container_exec md5_hexdigest buffer_output name image_cmd cmd_args read_stdin
      write_stdout rs ExitCode = Inr result"
    using assms by (simp add: container_exec_def)
  have n: "exit_code result \<noteq> 0 \<longrightarrow> in_files result = [] \<and> out_files result = []"
    unfolding assms(2) by (simp add: collect_def new_CommandLog_def Let_def)
  have z: "exit_code result = 0 \<Longrightarrow>
      in_files result = stream_log md5_hexdigest ''/dev/stdin'' (stdin_s st)
      \<and> out_files result = stream_log md5_hexdigest ''/dev/stdout'' (stdout_s st)
          @ stream_log md5_hexdigest ''/dev/stderr'' (Some (stderr_s st))"
    unfolding assms(2) by (simp add: collect_def new_CommandLog_def Let_def split: if_splits)
  have l: "data_length ts \<noteq> 0 \<longleftrightarrow> md5_data ts \<noteq> []" if "counted ts" for ts
    using that by (simp add: counted_def)
  have "exit_code result = 0 \<longrightarrow>
          (FileLog ''/dev/stdin'' d \<in> set (in_files result) \<longleftrightarrow>
             read_stdin \<and> stream_bytes (stdin_s st) \<noteq> []
             \<and> d = md5_hexdigest (stream_bytes (stdin_s st)))
        \<and> (FileLog ''/dev/stdout'' d \<in> set (out_files result) \<longleftrightarrow>
             write_stdout \<and> stream_bytes (stdout_s st) \<noteq> []
             \<and> d = md5_hexdigest (stream_bytes (stdout_s st)))
        \<and> (FileLog ''/dev/stderr'' d \<in> set (out_files result) \<longleftrightarrow>
             md5_data (stderr_s st) \<noteq> [] \<and> d = md5_hexdigest (md5_data (stderr_s st)))"
    using c i o l
    by (auto simp add: z stream_log_member stream_bytes_def streams_counted_def
        split: option.splits)
  with e n show ?thesis
    by blast
qed

lemma stream_bytes_simps [simp]:
  "stream_bytes None = []" "stream_bytes (Some ts) = md5_data ts"
  by (simp_all add: stream_bytes_def)

lemma md5_data_deliver [simp]:
  "md5_data (deliver buffer_output s_data ts) = md5_data ts @ s_data"
  by (simp add: deliver_def update_def)

lemma handle_trace:
  assumes "handle buffer_output sel st = Inr st'"
  shows "md5_data (stderr_s st') = md5_data (stderr_s st) @ frame_bytes 2 [sel]
     \<and> stream_bytes (stdout_s st') =
         (if stdout_s st = None then [] else stream_bytes (stdout_s st) @ frame_bytes 1 [sel])
     \<and> stream_bytes (stdin_s st') =
         stream_bytes (stdin_s st) @ (if stdin_active st then stdin_taken [sel] else [])
     \<and> (stdout_s st' = None \<longleftrightarrow> stdout_s st = None)
     \<and> (c_socket_open st' \<longleftrightarrow> c_socket_open st \<and> \<not> closes [sel])
     \<and> (stdin_active st' \<longleftrightarrow> stdin_active st \<and> \<not> stdin_ended [sel])"
proof (cases sel)
  case (Stdin s_data)
  show ?thesis
  proof (cases "stdin_active st")
    case False
    with assms Stdin show ?thesis by simp
  next
    case True
    show ?thesis
    proof (cases "s_data = []")
      case e: True
      with assms Stdin True have "st' = st\<lparr>stdin_active := False, shutdown_wr := True\<rparr>"
        by simp
      with Stdin True e show ?thesis by simp
    next
      case ne: False
      with assms Stdin True obtain ts where s: "stdin_s st = Some ts"
        and r: "st' = st\<lparr>stdin_s := Some (update ts s_data), sent := sent st @ s_data\<rparr>"
        by (cases "stdin_s st") simp_all
      from r s Stdin True ne show ?thesis
        by (simp add: update_def)
    qed
  qed
next
  case (Socket s_type s_data)
  show ?thesis
  proof (cases "s_data = []")
    case True
    with assms Socket have "st' = st\<lparr>c_socket_open := False\<rparr>"
      by simp
    with Socket True show ?thesis by simp
  next
    case ne: False
    show ?thesis
    proof (cases "s_type = 1")
      case True
      with assms Socket ne
      have "st' = st\<lparr>stdout_s := map_option (deliver buffer_output s_data) (stdout_s st)\<rparr>"
        by simp
      with Socket True ne show ?thesis
        by (cases "stdout_s st") simp_all
    next
      case n1: False
      show ?thesis
      proof (cases "s_type = 2")
        case True
        with assms Socket ne n1
        have "st' = st\<lparr>stderr_s := deliver buffer_output s_data (stderr_s st)\<rparr>"
          by simp
        with Socket True ne show ?thesis by simp
      next
        case False
        with assms Socket ne n1 have "st' = st" by simp
        with Socket False ne n1 show ?thesis by simp
      qed
    qed
  qed
next
  case SocketFailure
  with assms show ?thesis by simp
qed

lemma frame_bytes_Cons: "frame_bytes ty (sel # sels) = frame_bytes ty [sel] @ frame_bytes ty sels"
  by (cases sel) simp_all

lemma closes_Cons: "closes (sel # sels) \<longleftrightarrow> closes [sel] \<or> closes sels"
  by (cases sel) simp_all

lemma stdin_ended_Cons: "stdin_ended (sel # sels) \<longleftrightarrow> stdin_ended [sel] \<or> stdin_ended sels"
  by (cases sel) simp_all

lemma stdin_taken_Cons:
  "stdin_taken (sel # sels) = stdin_taken [sel] @ (if stdin_ended [sel] then [] else stdin_taken sels)"
  by (cases sel) simp_all

lemma handle_all_trace:
  assumes "handle_all buffer_output sels st = Inr st'"
  shows "md5_data (stderr_s st') = md5_data (stderr_s st) @ frame_bytes 2 sels
     \<and> stream_bytes (stdout_s st') =
         (if stdout_s st = None then [] else stream_bytes (stdout_s st) @ frame_bytes 1 sels)
     \<and> stream_bytes (stdin_s st') =
         stream_bytes (stdin_s st) @ (if stdin_active st then stdin_taken sels else [])
     \<and> (stdout_s st' = None \<longleftrightarrow> stdout_s st = None)
     \<and> (c_socket_open st' \<longleftrightarrow> c_socket_open st \<and> \<not> closes sels)
     \<and> (stdin_active st' \<longleftrightarrow> stdin_active st \<and> \<not> stdin_ended sels)"
  using assms
proof (induction sels arbitrary: st)
  case Nil
  then show ?case by simp
next
  case (Cons sel sels)
  from Cons.prems obtain st1 where h: "handle buffer_output sel st = Inr st1"
    and r: "handle_all buffer_output sels st1 = Inr st'"
    by (auto split: sum.splits)
  note a = handle_trace [OF h] and b = Cons.IH [OF r]
  have 1: "md5_data (stderr_s st') = md5_data (stderr_s st) @ frame_bytes 2 (sel # sels)"
    using a b by (simp add: frame_bytes_Cons [of _ sel sels])
  have 2: "stream_bytes (stdout_s st') =
      (if stdout_s st = None then [] else stream_bytes (stdout_s st) @ frame_bytes 1 (sel # sels))"
    using a b by (simp add: frame_bytes_Cons [of _ sel sels])
  have 3: "stream_bytes (stdin_s st') =
      stream_bytes (stdin_s st) @ (if stdin_active st then stdin_taken (sel # sels) else [])"
    using a b by (simp add: stdin_taken_Cons [of sel sels])
  have 4: "stdout_s st' = None \<longleftrightarrow> stdout_s st = None"
    using a b by simp
  have 5: "c_socket_open st' \<longleftrightarrow> c_socket_open st \<and> \<not> closes (sel # sels)"
    using a b by (simp add: closes_Cons [of sel sels])
  have 6: "stdin_active st' \<longleftrightarrow> stdin_active st \<and> \<not> stdin_ended (sel # sels)"
    using a b by (simp add: stdin_ended_Cons [of sel sels])
  from 1 2 3 4 5 6 show ?case
    by (intro conjI)
qed

lemma io_loop_closed:
  "\<not> c_socket_open st \<Longrightarrow> io_loop buffer_output rs st = Inr st"
  by (cases rs) simp_all

lemma io_loop_trace:
  assumes "io_loop buffer_output rs st = Inr st'" and "c_socket_open st"
  shows "md5_data (stderr_s st') = md5_data (stderr_s st) @ stream_sent 2 (rounds_run rs)
     \<and> stream_bytes (stdout_s st') =
         (if stdout_s st = None then [] else stream_bytes (stdout_s st) @ stream_sent 1 (rounds_run rs))
     \<and> stream_bytes (stdin_s st') =
         stream_bytes (stdin_s st) @ (if stdin_active st then stdin_read (rounds_run rs) else [])"
  using assms
proof (induction rs arbitrary: st)
  case Nil
  then show ?case by simp
next
  case (Cons r rs)
  show ?case
  proof (cases r)
    case Unsupported
    with Cons.prems have a: "stdin_active st"
      and l: "io_loop buffer_output rs (st\<lparr>stdin_active := False\<rparr>) = Inr st'"
      by (auto split: if_splits)
    from Cons.IH [OF l] Cons.prems(2) a Unsupported show ?thesis
      by simp
  next
    case (Ready sels)
    with Cons.prems obtain st1 where h: "handle_all buffer_output sels st = Inr st1"
      and l: "io_loop buffer_output rs st1 = Inr st'"
      by (auto split: sum.splits)
    note t = handle_all_trace [OF h]
    show ?thesis
    proof (cases "closes sels")
      case True
      with t have "\<not> c_socket_open st1" by simp
      with l have "st' = st1" by (simp add: io_loop_closed)
      with t True Ready show ?thesis
        by simp
    next
      case False
      with t Cons.prems(2) have "c_socket_open st1" by simp
      from Cons.IH [OF l this] t False Ready show ?thesis
        by auto
    qed
  qed
qed

lemma container_exec_trace:
  assumes "io_loop buffer_output rs (initial_io read_stdin write_stdout) = Inr st"
  shows "md5_data (stderr_s st) = stream_sent 2 (rounds_run rs)
     \<and> stream_bytes (stdout_s st) = (if write_stdout then stream_sent 1 (rounds_run rs) else [])
     \<and> stream_bytes (stdin_s st) = (if read_stdin then stdin_read (rounds_run rs) else [])"
  using io_loop_trace [OF assms]
  by (simp add: initial_io_def new_ToolStream_def)

text \<open>
  C9. A run with exit code 0 (the runs that \<^verbatim>\<open>main\<close> writes to the log) does not always get a
  record for a stream that had bytes: with \<^verbatim>\<open>write_stdout\<close> false (the output archive goes to
  standard output) there is no stream object for standard output, and the bytes that the
  container writes to it are dropped. In the counterexample the container sends the three
  bytes \<^verbatim>\<open>out\<close> on standard output and exits with code 0; the entry has no output files.
\<close>

theorem stream_records_counterexample:
  "stream_sent 1 (rounds_run [Ready [Socket 1 ''out''], Ready [Socket 0 '''']]) = ''out''
   \<and> container_exec example_md5 False ''tool'' [] [''cat''] False False
     [Ready [Socket 1 ''out''], Ready [Socket 0 '''']] (Some 0) =
   Inr \<lparr>command = [''tool'', ''cat''], exit_code = 0, stdin = [], stdout = [], stderr = [],
        in_files = [], out_files = []\<rparr>"
  by (simp add: container_exec_def initial_io_def new_ToolStream_def new_CommandLog_def
      collect_def stream_log_def stream_raw_def)

text \<open>
  C9, as amended. When \<^verbatim>\<open>__container_exec\<close> returns an entry, its exit code is the one
  inspected. For exit code 0 the entry's input files hold a record at \<^verbatim>\<open>/dev/stdin\<close> exactly
  when standard input is read (\<^verbatim>\<open>read_stdin\<close>) and gave at least one byte, its output files a
  record at \<^verbatim>\<open>/dev/stdout\<close> exactly when standard output is kept (\<^verbatim>\<open>write_stdout\<close>) and the
  container sent at least one byte on it, and a record at \<^verbatim>\<open>/dev/stderr\<close> exactly when the
  container sent at least one byte on standard error; each record carries the digest of all
  the bytes of its stream. For any other exit code the entry has no stream record.
\<close>

theorem stream_records_of_trace:
  assumes "container_exec md5_hexdigest buffer_output name image_cmd cmd_args read_stdin
      write_stdout rs ExitCode = Inr result"
  shows "exit_code result = (case ExitCode of None \<Rightarrow> 0 | Some c \<Rightarrow> c)
     \<and> (exit_code result = 0 \<longrightarrow>
          (FileLog ''/dev/stdin'' d \<in> set (in_files result) \<longleftrightarrow>
             read_stdin \<and> stdin_read (rounds_run rs) \<noteq> []
             \<and> d = md5_hexdigest (stdin_read (rounds_run rs)))
        \<and> (FileLog ''/dev/stdout'' d \<in> set (out_files result) \<longleftrightarrow>
             write_stdout \<and> stream_sent 1 (rounds_run rs) \<noteq> []
             \<and> d = md5_hexdigest (stream_sent 1 (rounds_run rs)))
        \<and> (FileLog ''/dev/stderr'' d \<in> set (out_files result) \<longleftrightarrow>
             stream_sent 2 (rounds_run rs) \<noteq> []
             \<and> d = md5_hexdigest (stream_sent 2 (rounds_run rs))))
     \<and> (exit_code result \<noteq> 0 \<longrightarrow> in_files result = [] \<and> out_files result = [])"
proof -
  from assms obtain st where l: "io_loop buffer_output rs (initial_io read_stdin write_stdout) = Inr st"
    and r: "result = collect md5_hexdigest buffer_output ExitCode
           (new_CommandLog (name # (if cmd_args \<noteq> [] then cmd_args else image_cmd))) st"
    by (auto simp add: container_exec_def Let_def split: sum.splits)
  have e: "exit_code result = (case ExitCode of None \<Rightarrow> 0 | Some c \<Rightarrow> c)"
    unfolding r by (simp add: collect_def new_CommandLog_def Let_def)
  note t = container_exec_trace [OF l]
  from stream_records_of_state [OF l r, of d] e show ?thesis
    unfolding t [THEN conjunct1] t [THEN conjunct2, THEN conjunct1]
      t [THEN conjunct2, THEN conjunct2]
    by auto
qed

theorem stream_records_of_trace_witness:
  "stdin_read (rounds_run [Ready [Stdin ''hi''], Ready [Socket 1 ''out''],
       Ready [Socket 2 ''err'', Stdin ''''], Ready [Socket 0 '''']]) = ''hi''
   \<and> stream_sent 1 (rounds_run [Ready [Stdin ''hi''], Ready [Socket 1 ''out''],
       Ready [Socket 2 ''err'', Stdin ''''], Ready [Socket 0 '''']]) = ''out''
   \<and> stream_sent 2 (rounds_run [Ready [Stdin ''hi''], Ready [Socket 1 ''out''],
       Ready [Socket 2 ''err'', Stdin ''''], Ready [Socket 0 '''']]) = ''err''
   \<and> container_exec example_md5 False ''tool'' [] [''cat''] True True
     [Ready [Stdin ''hi''], Ready [Socket 1 ''out''], Ready [Socket 2 ''err'', Stdin ''''],
      Ready [Socket 0 '''']] (Some 0) =
   Inr \<lparr>command = [''tool'', ''cat''], exit_code = 0, stdin = [], stdout = [], stderr = [],
        in_files = [FileLog ''/dev/stdin'' ''49f68a5c8493ec2c0bf489821c21fc3b''],
        out_files = [FileLog ''/dev/stdout'' ''c68271a63ddbc431c307beb7d2918275'',
                     FileLog ''/dev/stderr'' ''56bd7107802ebe56c6918992f0608ec6'']\<rparr>
   \<and> FileLog ''/dev/stdin'' (example_md5 ''hi'')
       \<in> set (in_files \<lparr>command = [''tool'', ''cat''], exit_code = 0, stdin = [], stdout = [],
            stderr = [],
            in_files = [FileLog ''/dev/stdin'' ''49f68a5c8493ec2c0bf489821c21fc3b''],
            out_files = [FileLog ''/dev/stdout'' ''c68271a63ddbc431c307beb7d2918275'',
                         FileLog ''/dev/stderr'' ''56bd7107802ebe56c6918992f0608ec6'']\<rparr>)"
proof -
  let ?rs = "[Ready [Stdin ''hi''], Ready [Socket 1 ''out''], Ready [Socket 2 ''err'', Stdin ''''],
      Ready [Socket 0 '''']]"
  let ?result = "\<lparr>command = [''tool'', ''cat''], exit_code = 0, stdin = [], stdout = [], stderr = [],
        in_files = [FileLog ''/dev/stdin'' ''49f68a5c8493ec2c0bf489821c21fc3b''],
        out_files = [FileLog ''/dev/stdout'' ''c68271a63ddbc431c307beb7d2918275'',
                     FileLog ''/dev/stderr'' ''56bd7107802ebe56c6918992f0608ec6'']\<rparr>"
  have b: "stdin_read (rounds_run ?rs) = ''hi''" "stream_sent 1 (rounds_run ?rs) = ''out''"
      "stream_sent 2 (rounds_run ?rs) = ''err''"
    by simp_all
  have c: "container_exec example_md5 False ''tool'' [] [''cat''] True True ?rs (Some 0) = Inr ?result"
    by (simp add: container_exec_def initial_io_def new_ToolStream_def deliver_def update_def
        collect_def new_CommandLog_def stream_log_def example_md5_def)
  have m: "FileLog ''/dev/stdin'' (example_md5 ''hi'') \<in> set (in_files ?result)"
    using stream_records_of_trace [OF c, of "example_md5 ''hi''", THEN conjunct2, THEN conjunct1]
    by (simp add: b)
  from b c m show ?thesis
    by (intro conjI)
qed

section \<open>Properties of the renderer\<close>

lemma join_connector:
  "xs \<noteq> [] \<Longrightarrow> p @ join p xs = concat (map (\<lambda>s. p @ s) xs)"
  by (induction p xs rule: join.induct) simp_all

lemma with_next_concat:
  "with_next label p xs = label @ concat (map (\<lambda>s. p @ s) xs)"
  by (cases "xs = []") (simp_all add: with_next_def join_connector)

lemma split_nl_not_Nil [simp]: "split_nl s \<noteq> []"
  by (cases s) simp_all

lemma split_nl_first:
  "nl \<notin> set a \<Longrightarrow> split_nl (a @ b) = (a @ hd (split_nl b)) # tl (split_nl b)"
  by (induction a) auto

lemma split_nl_replace_nl:
  "split_nl (replace_nl s) = hd (split_nl s) # map (\<lambda>l. ''    '' @ l) (tl (split_nl s))"
proof (induction s)
  case Nil
  then show ?case by simp
next
  case (Cons c s)
  show ?case
  proof (cases "c = nl")
    case True
    have "nl \<notin> set ''    ''"
      by (simp add: nl_def)
    from split_nl_first [OF this, of "replace_nl s"]
    have a: "split_nl (''    '' @ replace_nl s) =
        (''    '' @ hd (split_nl (replace_nl s))) # tl (split_nl (replace_nl s))" .
    have b: "hd (split_nl (replace_nl s)) = hd (split_nl s)"
        "tl (split_nl (replace_nl s)) = map (\<lambda>l. ''    '' @ l) (tl (split_nl s))"
      by (simp_all add: Cons.IH)
    have d: "map f (split_nl s) = f (hd (split_nl s)) # map f (tl (split_nl s))"
      for f :: "string \<Rightarrow> string"
      by (cases "split_nl s") simp_all
    have "split_nl (replace_nl (c # s)) = [] # split_nl (''    '' @ replace_nl s)"
      using True by simp
    also have "\<dots> = [] # (''    '' @ hd (split_nl s)) # map (\<lambda>l. ''    '' @ l) (tl (split_nl s))"
      unfolding a b ..
    also have "\<dots> = [] # map (\<lambda>l. ''    '' @ l) (split_nl s)"
      by (simp add: d)
    also have "\<dots> = hd (split_nl (c # s)) # map (\<lambda>l. ''    '' @ l) (tl (split_nl (c # s)))"
      using True by simp
    finally show ?thesis .
  next
    case False
    with Cons.IH show ?thesis by simp
  qed
qed

lemma first_line:
  assumes "nl \<notin> set label"
  shows "hd (split_nl (label @ concat (map (\<lambda>s. (nl # p) @ s) xs))) = label"
proof (cases xs)
  case Nil
  with split_nl_first [OF assms, of "[]"] show ?thesis by simp
next
  case (Cons x xs')
  with split_nl_first [OF assms, of "concat (map (\<lambda>s. (nl # p) @ s) xs)"] show ?thesis
    by simp
qed

text \<open>
  C10. Rendering is a function of the tree (and of \<^verbatim>\<open>quote_args\<close>). A file node renders as
  its path followed by a space and the first 16 characters of its digest, or by \<^verbatim>\<open>/\<close> when
  the digest is empty (this label is the first line, for a path and digest without line
  feeds), followed by each child's rendering behind the node's connector; a command node
  renders as its quoted arguments followed by each child's rendering behind its connector.
  In a child's rendering every line after the first gets a margin of four spaces. The
  connectors of fan-out nodes contain \<^verbatim>\<open>|\<close> and no \<^verbatim>\<open>^\<close>, those of fan-in nodes \<^verbatim>\<open>^\<close> and no
  \<^verbatim>\<open>|\<close>.
\<close>

theorem render_file_node:
  "str_file quote_args (FileDependency fl digest out nxt) =
     (fl @ (if digest \<noteq> [] then '' '' @ take 16 digest else ''/''))
     @ concat (map (\<lambda>c. file_connector out @ replace_nl (str_cmd quote_args c)) nxt)
   \<and> str_cmd quote_args (CommandDependency cmd out files) =
     join '' '' (quote_args (command cmd))
     @ concat (map (\<lambda>f. cmd_connector out @ replace_nl (str_file quote_args f)) files)
   \<and> (nl \<notin> set fl \<and> nl \<notin> set (take 16 digest) \<longrightarrow>
        hd (split_nl (str_file quote_args (FileDependency fl digest out nxt))) =
          fl @ (if digest \<noteq> [] then '' '' @ take 16 digest else ''/''))
   \<and> split_nl (replace_nl s) = hd (split_nl s) # map (\<lambda>l. ''    '' @ l) (tl (split_nl s))
   \<and> file_connector True = nl # ''|-- '' \<and> file_connector False = nl # ''^-- ''
   \<and> cmd_connector True = nl # ''|-->'' \<and> cmd_connector False = nl # ''^---''
   \<and> CHR ''|'' \<in> set (file_connector True) \<and> CHR ''^'' \<notin> set (file_connector True)
   \<and> CHR ''^'' \<in> set (file_connector False) \<and> CHR ''|'' \<notin> set (file_connector False)
   \<and> CHR ''|'' \<in> set (cmd_connector True) \<and> CHR ''^'' \<notin> set (cmd_connector True)
   \<and> CHR ''^'' \<in> set (cmd_connector False) \<and> CHR ''|'' \<notin> set (cmd_connector False)"
proof -
  have f: "str_file quote_args (FileDependency fl digest out nxt) =
     (fl @ (if digest \<noteq> [] then '' '' @ take 16 digest else ''/''))
     @ concat (map (\<lambda>c. file_connector out @ replace_nl (str_cmd quote_args c)) nxt)"
    by (simp add: with_next_concat file_string_def comp_def)
  have c: "str_cmd quote_args (CommandDependency cmd out files) =
     join '' '' (quote_args (command cmd))
     @ concat (map (\<lambda>f. cmd_connector out @ replace_nl (str_file quote_args f)) files)"
    by (simp add: with_next_concat comp_def)
  have l: "hd (split_nl (str_file quote_args (FileDependency fl digest out nxt))) =
          fl @ (if digest \<noteq> [] then '' '' @ take 16 digest else ''/'')"
    if "nl \<notin> set fl" "nl \<notin> set (take 16 digest)"
  proof -
    have n: "nl \<notin> set (fl @ (if digest \<noteq> [] then '' '' @ take 16 digest else ''/''))"
      using that by (simp add: nl_def)
    have e: "concat (map (\<lambda>c. file_connector out @ replace_nl (str_cmd quote_args c)) nxt) =
        concat (map (\<lambda>s. (nl # (if out then ''|-- '' else ''^-- '')) @ s)
          (map (\<lambda>c. replace_nl (str_cmd quote_args c)) nxt))"
      by (simp add: file_connector_def comp_def)
    show ?thesis
      unfolding f e by (rule first_line [OF n])
  qed
  have g: "file_connector True = nl # ''|-- ''" "file_connector False = nl # ''^-- ''"
      "cmd_connector True = nl # ''|-->''" "cmd_connector False = nl # ''^---''"
    by (simp_all add: file_connector_def cmd_connector_def)
  have m: "CHR ''|'' \<in> set (file_connector True) \<and> CHR ''^'' \<notin> set (file_connector True)
   \<and> CHR ''^'' \<in> set (file_connector False) \<and> CHR ''|'' \<notin> set (file_connector False)
   \<and> CHR ''|'' \<in> set (cmd_connector True) \<and> CHR ''^'' \<notin> set (cmd_connector True)
   \<and> CHR ''^'' \<in> set (cmd_connector False) \<and> CHR ''|'' \<notin> set (cmd_connector False)"
    unfolding g by (simp add: nl_def)
  from l have l': "nl \<notin> set fl \<and> nl \<notin> set (take 16 digest) \<longrightarrow>
        hd (split_nl (str_file quote_args (FileDependency fl digest out nxt))) =
          fl @ (if digest \<noteq> [] then '' '' @ take 16 digest else ''/'')"
    by blast
  show ?thesis
    using f c l' split_nl_replace_nl [of s] g m by blast
qed

theorem render_file_node_witness:
  "str_file (\<lambda>args. args)
     (FileDependency ''/dev/stdout'' ''0123456789abcdef0123456789abcdef'' False
        [CommandDependency (entry [''cat'', ''a.txt''] [FileLog ''a.txt'' ''''] []) False
           [FileDependency ''a.txt'' '''' False []]]) =
     ''/dev/stdout 0123456789abcdef'' @ nl # ''^-- cat a.txt'' @ nl # ''    ^---a.txt/''
   \<and> hd (split_nl (str_file (\<lambda>args. args)
     (FileDependency ''/dev/stdout'' ''0123456789abcdef0123456789abcdef'' False
        [CommandDependency (entry [''cat'', ''a.txt''] [FileLog ''a.txt'' ''''] []) False
           [FileDependency ''a.txt'' '''' False []]]))) =
     ''/dev/stdout 0123456789abcdef''"
proof -
  have n: "nl \<notin> set ''/dev/stdout'' \<and> nl \<notin> set (take 16 ''0123456789abcdef0123456789abcdef'')"
    by (simp add: nl_def)
  have a: "str_file (\<lambda>args. args)
     (FileDependency ''/dev/stdout'' ''0123456789abcdef0123456789abcdef'' False
        [CommandDependency (entry [''cat'', ''a.txt''] [FileLog ''a.txt'' ''''] []) False
           [FileDependency ''a.txt'' '''' False []]]) =
     ''/dev/stdout 0123456789abcdef'' @ nl # ''^-- cat a.txt'' @ nl # ''    ^---a.txt/''"
    by (simp add: with_next_def file_string_def file_connector_def cmd_connector_def entry_def nl_def)
  have b: "hd (split_nl (str_file (\<lambda>args. args)
     (FileDependency ''/dev/stdout'' ''0123456789abcdef0123456789abcdef'' False
        [CommandDependency (entry [''cat'', ''a.txt''] [FileLog ''a.txt'' ''''] []) False
           [FileDependency ''a.txt'' '''' False []]]))) =
     ''/dev/stdout '' @ take 16 ''0123456789abcdef0123456789abcdef''"
    using n render_file_node [of "\<lambda>args. args" "''/dev/stdout''" "''0123456789abcdef0123456789abcdef''"
        False "[CommandDependency (entry [''cat'', ''a.txt''] [FileLog ''a.txt'' ''''] []) False
           [FileDependency ''a.txt'' '''' False []]]", THEN conjunct2, THEN conjunct2, THEN conjunct1]
    by simp
  have "take 16 ''0123456789abcdef0123456789abcdef'' = ''0123456789abcdef''"
    by simp
  with a b show ?thesis
    by simp
qed

end
